theory Spec2Isabelle
  imports Complex_Main "HOL-Library.Signed_Division"
begin

section \<open>The camera module: data model\<close>

text \<open>
  The module under verification is the multi-angle camera view (the React component
  \<^verbatim>\<open>Camera\<close> and the helpers declared before it). JavaScript numbers that hold angles
  and distances are modelled as reals: the code stores and copies them, and in
  \<^verbatim>\<open>snapToNearest\<close> subtracts them, takes absolute values and compares. The rounding of
  that subtraction in binary64 arithmetic is modelled in the section on preset snapping in
  binary64 arithmetic. Indices, counters and the run epoch are integers.
\<close>

type_synonym number = real

datatype view_status = Queued | Running | Done | Failed

text \<open>One requested shot, as \<^verbatim>\<open>buildViews\<close> produces it.\<close>

record AngleView =
  azimuth :: number
  elevation :: number
  distance :: number

text \<open>
  \<^verbatim>\<open>type AngleResult\<close>: the fields of the view it was made from, and its own. An
  optional field that is absent is \<open>None\<close>.
\<close>

record AngleResult = AngleView +
  id :: string
  status :: view_status
  image :: "string option"
  seed :: "number option"
  error :: "string option"

text \<open>
  The three preset tables, as association lists in the order in which
  \<^verbatim>\<open>Object.keys\<close> enumerates them (integer-like keys ascending, then the others in
  order of declaration, so \<^verbatim>\<open>-30\<close> comes last in the elevation table). The keys
  \<^verbatim>\<open>0.6\<close> and \<^verbatim>\<open>1.4\<close> of the distance table are the binary64 numbers that these
  literals denote, \<open>5404319552844595 / 2^53\<close> and \<open>6305039478318694 / 2^52\<close>.
\<close>

definition AZIMUTH_MAP :: "(number \<times> string) list" where
  "AZIMUTH_MAP =
    [(0, ''front view''), (45, ''front-right quarter view''), (90, ''right side view''),
     (135, ''back-right quarter view''), (180, ''back view''), (225, ''back-left quarter view''),
     (270, ''left side view''), (315, ''front-left quarter view'')]"

definition ELEVATION_MAP :: "(number \<times> string) list" where
  "ELEVATION_MAP =
    [(0, ''eye-level shot''), (30, ''elevated shot''), (60, ''high-angle shot''),
     (-30, ''low-angle shot'')]"

definition DISTANCE_MAP :: "(number \<times> string) list" where
  "DISTANCE_MAP =
    [(5404319552844595 / 9007199254740992, ''close-up''), (1, ''medium shot''),
     (6305039478318694 / 4503599627370496, ''wide shot'')]"

text \<open>\<^verbatim>\<open>Object.keys(M).map(Number).sort((a, b) => a - b)\<close>\<close>

definition ANGLE_PRESETS :: "number list" where
  "ANGLE_PRESETS = sort (map fst AZIMUTH_MAP)"

definition ANGLE_COUNT :: nat where
  "ANGLE_COUNT = length ANGLE_PRESETS"

definition ELEVATION_PRESETS :: "number list" where
  "ELEVATION_PRESETS = sort (map fst ELEVATION_MAP)"

definition DISTANCE_PRESETS :: "number list" where
  "DISTANCE_PRESETS = sort (map fst DISTANCE_MAP)"

definition MAX_PARALLEL :: int where
  "MAX_PARALLEL = 3"

section \<open>Preset snapping\<close>

text \<open>
  \<^verbatim>\<open>options.reduce((nearest, option) => ...)\<close> without an initial value: the first
  element seeds the accumulator, and an empty array raises a TypeError (\<open>None\<close>).
\<close>

definition snapToNearest :: "number \<Rightarrow> number list \<Rightarrow> number option" where
  "snapToNearest v options =
    (case options of
       [] \<Rightarrow> None
     | first # rest \<Rightarrow>
         Some (foldl (\<lambda>nearest option.
                 if \<bar>option - v\<bar> < \<bar>nearest - v\<bar> then option else nearest) first rest))"

section \<open>Preset snapping in binary64 arithmetic\<close>

text \<open>
  JavaScript numbers are binary64 floating-point numbers, and the running code rounds each
  difference \<^verbatim>\<open>option - value\<close> to the nearest binary64 number before it takes the
  absolute value and compares. \<open>snapToNearest\<close> above states the reduction with exact
  differences; \<open>snapToNearest64\<close> below states it with the rounded ones. The two agree
  wherever the differences are exact (see the properties of preset snapping).

  A binary64 number is not-a-number, an infinity, or \<open>Fin x\<close> for a real \<open>x\<close> that
  rounding leaves unchanged. The two zeros are not distinguished: they compare equal and
  have the same absolute value.
\<close>

datatype float64 = NaN | PosInf | NegInf | Fin real

text \<open>The nearest integer, ties to the even one.\<close>

definition rne :: "real \<Rightarrow> int" where
  "rne r =
    (let f = \<lfloor>r\<rfloor>; d = r - of_int f
     in if d < 1 / 2 then f else if 1 / 2 < d then f + 1 else if even f then f else f + 1)"

text \<open>
  The binary exponent of a positive number: the number of halvings that bring it below 2,
  at most 1023, or minus the number of doublings that bring it to 1 or above, at most 1022
  (below \<open>2^-1022\<close> the numbers are subnormal and share the least exponent).
\<close>

fun halvings :: "nat \<Rightarrow> real \<Rightarrow> int" where
  "halvings 0 x = 0"
| "halvings (Suc n) x = (if x < 2 then 0 else halvings n (x / 2) + 1)"

fun doublings :: "nat \<Rightarrow> real \<Rightarrow> int" where
  "doublings 0 x = 0"
| "doublings (Suc n) x = (if 1 \<le> x then 0 else doublings n (x * 2) - 1)"

definition exponent :: "real \<Rightarrow> int" where
  "exponent x = (if 1 \<le> x then halvings 1023 x else doublings 1022 x)"

definition pow2 :: "int \<Rightarrow> real" where
  "pow2 e = (if 0 \<le> e then 2 ^ nat e else 1 / 2 ^ nat (- e))"

text \<open>
  Rounding to binary64: a multiple of the unit in the last place, 52 binary digits below
  the exponent, the nearest one and on a tie the one with an even multiplier; a result of
  magnitude \<open>2^1024\<close> or more overflows to an infinity.
\<close>

definition round64 :: "real \<Rightarrow> float64" where
  "round64 x =
    (let q = pow2 (exponent \<bar>x\<bar> - 52); y = of_int (rne (x / q)) * q
     in if 2 ^ 1024 \<le> y then PosInf else if y \<le> - (2 ^ 1024) then NegInf else Fin y)"

text \<open>\<^verbatim>\<open>a - b\<close>, \<^verbatim>\<open>Math.abs(a)\<close> and \<^verbatim>\<open>a < b\<close> on binary64 numbers.\<close>

fun sub64 :: "float64 \<Rightarrow> float64 \<Rightarrow> float64" where
  "sub64 (Fin a) (Fin b) = round64 (a - b)"
| "sub64 NaN y = NaN"
| "sub64 x NaN = NaN"
| "sub64 PosInf PosInf = NaN"
| "sub64 NegInf NegInf = NaN"
| "sub64 PosInf y = PosInf"
| "sub64 NegInf y = NegInf"
| "sub64 (Fin a) PosInf = NegInf"
| "sub64 (Fin a) NegInf = PosInf"

fun abs64 :: "float64 \<Rightarrow> float64" where
  "abs64 NaN = NaN"
| "abs64 PosInf = PosInf"
| "abs64 NegInf = PosInf"
| "abs64 (Fin a) = Fin \<bar>a\<bar>"

fun less64 :: "float64 \<Rightarrow> float64 \<Rightarrow> bool" where
  "less64 (Fin a) (Fin b) = (a < b)"
| "less64 (Fin a) PosInf = True"
| "less64 NegInf (Fin b) = True"
| "less64 NegInf PosInf = True"
| "less64 x y = False"

text \<open>\<^verbatim>\<open>Math.abs(option - value)\<close>\<close>

definition distance64 :: "float64 \<Rightarrow> float64 \<Rightarrow> float64" where
  "distance64 option v = abs64 (sub64 option v)"

definition snapToNearest64 :: "float64 \<Rightarrow> float64 list \<Rightarrow> float64 option" where
  "snapToNearest64 v options =
    (case options of
       [] \<Rightarrow> None
     | first # rest \<Rightarrow>
         Some (foldl (\<lambda>nearest option.
                 if less64 (distance64 option v) (distance64 nearest v)
                 then option else nearest) first rest))"

section \<open>Prompt builder\<close>

text \<open>\<^verbatim>\<open>M[key]\<close> inside a template literal: a missing key prints as \<^verbatim>\<open>undefined\<close>.\<close>

definition phrase :: "(number \<times> string) list \<Rightarrow> number \<Rightarrow> string" where
  "phrase table key = (case map_of table key of Some text \<Rightarrow> text | None \<Rightarrow> ''undefined'')"

text \<open>
  \<^verbatim>\<open>extraPrompt.trim()\<close>. A string is a list of characters with codes below 256; among
  these the white space and line terminators that \<^verbatim>\<open>trim\<close> removes are U+0009 to U+000D,
  U+0020 and U+00A0.
\<close>

definition is_space :: "char \<Rightarrow> bool" where
  "is_space c \<longleftrightarrow>
     c \<in> set [CHR '' '', CHR 0x09, CHR 0x0A, CHR 0x0B, CHR 0x0C, CHR 0x0D, CHR 0xA0]"

definition trim :: "string \<Rightarrow> string" where
  "trim s = rev (dropWhile is_space (rev (dropWhile is_space s)))"

text \<open>
  \<^verbatim>\<open>buildAnglePrompt\<close>; \<open>None\<close> when a snap raises, which the non-empty preset lists
  exclude.
\<close>

definition buildAnglePrompt :: "number \<Rightarrow> number \<Rightarrow> number \<Rightarrow> string \<Rightarrow> string option" where
  "buildAnglePrompt az el di extraPrompt =
    (case snapToNearest az ANGLE_PRESETS of
       None \<Rightarrow> None
     | Some azimuthSnap \<Rightarrow>
    (case snapToNearest el ELEVATION_PRESETS of
       None \<Rightarrow> None
     | Some elevationSnap \<Rightarrow>
    (case snapToNearest di DISTANCE_PRESETS of
       None \<Rightarrow> None
     | Some distanceSnap \<Rightarrow>
         (let anglePrompt = ''<sks> '' @ phrase AZIMUTH_MAP azimuthSnap @ '' ''
                @ phrase ELEVATION_MAP elevationSnap @ '' '' @ phrase DISTANCE_MAP distanceSnap;
              suffix = trim extraPrompt
          in if suffix \<noteq> [] then Some (anglePrompt @ '' '' @ suffix) else Some anglePrompt))))"

section \<open>Display index\<close>

text \<open>The remainder operator of JavaScript truncates towards zero: \<open>smod\<close> on \<open>int\<close>.\<close>

definition wrapIndex :: "int \<Rightarrow> nat \<Rightarrow> int" where
  "wrapIndex v len =
    (if len = 0 then 0 else ((v smod int len) + int len) smod int len)"

text \<open>\<^verbatim>\<open>items[i]\<close>: \<^verbatim>\<open>undefined\<close> outside the array.\<close>

definition item_at :: "AngleResult list \<Rightarrow> int \<Rightarrow> AngleResult option" where
  "item_at items i = (if 0 \<le> i \<and> i < int (length items) then Some (items ! nat i) else None)"

text \<open>
  \<^verbatim>\<open>items[i]?.image\<close> used as a condition: true when the entry exists and its image is
  a non-empty string.
\<close>

definition has_image :: "AngleResult option \<Rightarrow> bool" where
  "has_image r =
    (case r of None \<Rightarrow> False
     | Some item \<Rightarrow> (case image item of None \<Rightarrow> False | Some s \<Rightarrow> s \<noteq> []))"

text \<open>The \<^verbatim>\<open>for (let offset = 1; offset < items.length; offset += 1)\<close> loop.\<close>

function nearest_loop :: "int \<Rightarrow> AngleResult list \<Rightarrow> nat \<Rightarrow> int" where
  "nearest_loop index items offset =
    (if offset < length items then
       (let right = wrapIndex (index + int offset) (length items);
            left = wrapIndex (index - int offset) (length items)
        in if has_image (item_at items right) then right
           else if has_image (item_at items left) then left
           else nearest_loop index items (offset + 1))
     else -1)"
  by pat_completeness auto
termination
  by (relation "measure (\<lambda>(index, items, offset). length items - offset)") auto

definition findNearestImageIndex :: "int \<Rightarrow> AngleResult list \<Rightarrow> int" where
  "findNearestImageIndex index items =
    (if items = [] then -1
     else if has_image (item_at items index) then index
     else nearest_loop index items 1)"

section \<open>Responses of the render service\<close>

text \<open>
  A parsed JSON body. The code never computes with the numbers of a payload: it tests
  them for truthiness and turns them into text. A number is therefore given by the text
  that JavaScript prints for it (\<^verbatim>\<open>12\<close>, \<^verbatim>\<open>-0.5\<close>, \<^verbatim>\<open>1e+21\<close>); zero, of either sign,
  is \<^verbatim>\<open>0\<close>. An object is the list of its members, each key once. A JavaScript value
  that may be \<^verbatim>\<open>undefined\<close> is a \<open>json option\<close>, with \<open>None\<close> for \<^verbatim>\<open>undefined\<close>.
  Strings are ASCII character lists.
\<close>

datatype json =
    JNull
  | JBool bool
  | JNum string
  | JStr string
  | JArr "json list"
  | JObj "(string \<times> json) list"

text \<open>A thrown \<^verbatim>\<open>Error\<close> (a \<^verbatim>\<open>TypeError\<close> is one), with its message.\<close>

datatype js_error = Error string

text \<open>\<^verbatim>\<open>v?.key\<close>: \<^verbatim>\<open>undefined\<close> on \<^verbatim>\<open>null\<close>, \<^verbatim>\<open>undefined\<close> and values without that property.\<close>

fun get :: "json option \<Rightarrow> string \<Rightarrow> json option" where
  "get (Some (JObj members)) key = map_of members key"
| "get _ key = None"

fun truthy :: "json option \<Rightarrow> bool" where
  "truthy None = False"
| "truthy (Some JNull) = False"
| "truthy (Some (JBool b)) = b"
| "truthy (Some (JNum shown)) = (shown \<noteq> ''0'')"
| "truthy (Some (JStr s)) = (s \<noteq> [])"
| "truthy (Some (JArr xs)) = True"
| "truthy (Some (JObj members)) = True"

text \<open>\<^verbatim>\<open>a || b\<close> and \<^verbatim>\<open>a ?? b\<close>\<close>

definition js_or :: "json option \<Rightarrow> json option \<Rightarrow> json option" where
  "js_or a b = (if truthy a then a else b)"

definition nullish :: "json option \<Rightarrow> json option \<Rightarrow> json option" where
  "nullish a b = (if a = None \<or> a = Some JNull then b else a)"

text \<open>Decimal text of an integer.\<close>

definition digit_char :: "nat \<Rightarrow> char" where
  "digit_char d = ''0123456789'' ! d"

fun digits :: "nat \<Rightarrow> string" where
  "digits n =
    (if n < 10 then [digit_char n]
     else digits (n div 10) @ [digit_char (n mod 10)])"

text \<open>
  The texts of the elements of an array, joined with commas; the first element whose
  conversion throws makes the whole conversion throw.
\<close>

fun join_comma :: "(js_error + string) list \<Rightarrow> js_error + string" where
  "join_comma [] = Inr []"
| "join_comma (Inl e # rest) = Inl e"
| "join_comma [Inr s] = Inr s"
| "join_comma (Inr s # t # rest) =
    (case join_comma (t # rest) of Inl e \<Rightarrow> Inl e | Inr joined \<Rightarrow> Inr (s @ '','' @ joined))"

text \<open>
  \<^verbatim>\<open>String(v)\<close>, which is also the coercion that \<^verbatim>\<open>new Error(v)\<close> and
  \<^verbatim>\<open>encodeURIComponent(v)\<close> apply. An array is the comma-joined text of its elements,
  where \<^verbatim>\<open>null\<close> elements give the empty string. An object prints as
  \<^verbatim>\<open>[object Object]\<close> through the inherited \<^verbatim>\<open>toString\<close>; a member named
  \<^verbatim>\<open>toString\<close> hides that method and is not callable, and then the conversion throws a
  \<^verbatim>\<open>TypeError\<close>.
\<close>

fun js_String :: "json \<Rightarrow> js_error + string" where
  "js_String JNull = Inr ''null''"
| "js_String (JBool b) = Inr (if b then ''true'' else ''false'')"
| "js_String (JNum shown) = Inr shown"
| "js_String (JStr s) = Inr s"
| "js_String (JArr xs) =
    join_comma (map (\<lambda>x. if x = JNull then Inr [] else js_String x) xs)"
| "js_String (JObj members) =
    (if ''toString'' \<in> set (map fst members)
     then Inl (Error ''Cannot convert object to primitive value'')
     else Inr ''[object Object]'')"

definition to_text :: "json option \<Rightarrow> js_error + string" where
  "to_text v = (case v of None \<Rightarrow> Inr ''undefined'' | Some j \<Rightarrow> js_String j)"

text \<open>
  What \<^verbatim>\<open>throw new Error(v)\<close> throws: the error with the text of \<open>v\<close> as its message,
  or the \<^verbatim>\<open>TypeError\<close> of the conversion.
\<close>

definition thrown :: "json option \<Rightarrow> js_error" where
  "thrown v = (case to_text v of Inl e \<Rightarrow> e | Inr message \<Rightarrow> Error message)"

definition lower_char :: "char \<Rightarrow> char" where
  "lower_char c =
    (case map_of (zip ''ABCDEFGHIJKLMNOPQRSTUVWXYZ'' ''abcdefghijklmnopqrstuvwxyz'') c of
       Some l \<Rightarrow> l
     | None \<Rightarrow> c)"

definition toLowerCase :: "string \<Rightarrow> string" where
  "toLowerCase s = map lower_char s"

definition startsWith :: "string \<Rightarrow> string \<Rightarrow> bool" where
  "startsWith s p = (take (length p) s = p)"

fun str_includes :: "string \<Rightarrow> string \<Rightarrow> bool" where
  "str_includes [] p = (p = [])"
| "str_includes (c # cs) p = (startsWith (c # cs) p \<or> str_includes cs p)"

text \<open>\<^verbatim>\<open>normalizeImage\<close>; \<open>None\<close> is its \<^verbatim>\<open>null\<close>.\<close>

fun normalizeImage :: "json option \<Rightarrow> string option" where
  "normalizeImage (Some (JStr v)) =
    (if v = [] then None
     else if startsWith v ''data:'' \<or> startsWith v ''http'' then Some v
     else Some (''data:image/png;base64,'' @ v))"
| "normalizeImage _ = None"

text \<open>\<^verbatim>\<open>item?.image ?? item?.url ?? item?.data ?? item\<close>\<close>

definition item_source :: "json \<Rightarrow> json option" where
  "item_source item =
    nullish (nullish (nullish (get (Some item) ''image'') (get (Some item) ''url''))
               (get (Some item) ''data'')) (Some item)"

text \<open>\<^verbatim>\<open>candidate.map(...).filter(Boolean)\<close>\<close>

definition normalize_all :: "json list \<Rightarrow> string list" where
  "normalize_all candidate = List.map_filter (\<lambda>item. normalizeImage (item_source item)) candidate"

text \<open>The first loop of \<^verbatim>\<open>extractImageList\<close>: the first array with a usable entry wins.\<close>

fun first_image_list :: "json option list \<Rightarrow> string list option" where
  "first_image_list [] = None"
| "first_image_list (Some (JArr candidate) # rest) =
    (if normalize_all candidate \<noteq> [] then Some (normalize_all candidate)
     else first_image_list rest)"
| "first_image_list (_ # rest) = first_image_list rest"

text \<open>The second loop: the first single field that normalises to an image.\<close>

fun first_single_image :: "json option list \<Rightarrow> string option" where
  "first_single_image [] = None"
| "first_single_image (candidate # rest) =
    (case normalizeImage candidate of
       Some normalized \<Rightarrow> Some normalized
     | None \<Rightarrow> first_single_image rest)"

definition extractImageList :: "json option \<Rightarrow> string list" where
  "extractImageList payload =
    (let output = nullish (nullish (get payload ''output'') (get payload ''result'')) payload;
         listCandidates = [get output ''images'', get output ''outputs'',
                           get output ''output_images'', get output ''data'',
                           get payload ''images''];
         singleCandidates = [get output ''image'', get output ''output_image'',
                             get output ''output_image_base64'', get output ''message'',
                             get output ''data'', get payload ''image'', get payload ''data'']
     in case first_image_list listCandidates of
          Some normalized \<Rightarrow> normalized
        | None \<Rightarrow>
            (case first_single_image singleCandidates of
               Some normalized \<Rightarrow> [normalized]
             | None \<Rightarrow> []))"

text \<open>\<^verbatim>\<open>payload?.id || payload?.jobId || payload?.job_id || payload?.output?.id\<close>\<close>

definition extractJobId :: "json option \<Rightarrow> json option" where
  "extractJobId payload =
    js_or (js_or (js_or (get payload ''id'') (get payload ''jobId'')) (get payload ''job_id''))
      (get (get payload ''output'') ''id'')"

section \<open>Job submitter and job poller\<close>

text \<open>The render settings held in component state and captured by \<^verbatim>\<open>submitAngle\<close>.\<close>

record settings =
  guidanceScale :: number
  steps :: number
  width :: number
  height :: number
  seedValue :: number
  randomizeSeed :: bool

text \<open>The \<^verbatim>\<open>input\<close> object posted to the render endpoint.\<close>

record render_input =
  image_base64 :: string
  prompt :: string
  guidance_scale :: number
  num_inference_steps :: number
  input_width :: number
  input_height :: number
  input_seed :: number
  randomize_seed :: bool
  worker_mode :: string

text \<open>
  The two requests the module sends to \<^verbatim>\<open>API_ENDPOINT\<close>: the POST that submits a
  render, and the GET that asks for the status of a job (with the text of the job id that
  goes into the query string).
\<close>

datatype request = SubmitRequest render_input | StatusRequest string

text \<open>What the outside world sees of a run: requests sent and delays waited (in ms).\<close>

datatype effect = Fetch request | Wait nat

text \<open>
  How a \<^verbatim>\<open>fetch\<close> settles: it rejects (network failure), or it yields a response with
  its \<^verbatim>\<open>ok\<close> flag and its body, \<open>None\<close> when the body is not JSON.
\<close>

datatype fetch_result = NetworkError string | Response bool "json option"

text \<open>\<^verbatim>\<open>await res.json().catch(() => ({}))\<close>\<close>

definition body_data :: "json option \<Rightarrow> json option" where
  "body_data body = (case body of None \<Rightarrow> Some (JObj []) | Some parsed \<Rightarrow> Some parsed)"

datatype submitted = Images "string list" | JobId json

text \<open>The part of \<^verbatim>\<open>submitAngle\<close> after the \<^verbatim>\<open>fetch\<close> has settled.\<close>

definition submit_response :: "fetch_result \<Rightarrow> js_error + submitted" where
  "submit_response res =
    (case res of
       NetworkError reason \<Rightarrow> Inl (Error reason)
     | Response ok body \<Rightarrow>
         (let data = body_data body in
          if \<not> ok then
            Inl (thrown (js_or (js_or (get data ''error'') (get data ''message''))
                           (Some (JStr ''Request failed.''))))
          else if extractImageList data \<noteq> [] then Inr (Images (extractImageList data))
          else (case extractJobId data of
                  None \<Rightarrow> Inl (Error ''Missing job id.'')
                | Some jobId \<Rightarrow>
                    if \<not> truthy (Some jobId) then Inl (Error ''Missing job id.'')
                    else Inr (JobId jobId))))"

definition make_input :: "settings \<Rightarrow> string \<Rightarrow> string \<Rightarrow> render_input" where
  "make_input config anglePrompt payload =
    \<lparr>image_base64 = payload, prompt = anglePrompt, guidance_scale = guidanceScale config,
     num_inference_steps = steps config, input_width = width config,
     input_height = height config, input_seed = seedValue config,
     randomize_seed = randomizeSeed config, worker_mode = ''comfyui''\<rparr>"

text \<open>
  \<^verbatim>\<open>submitAngle\<close> against a render endpoint \<open>net\<close> that maps a request to the way its
  fetch settles. The result is the list of effects together with the error thrown or the
  value returned.
\<close>

text \<open>
  The part of \<^verbatim>\<open>submitAngle\<close> before its \<^verbatim>\<open>fetch\<close>: the check of the payload, then
  the request that is sent.
\<close>

definition submit_request :: "settings \<Rightarrow> string \<Rightarrow> string \<Rightarrow> js_error + request" where
  "submit_request config anglePrompt payload =
    (if payload = [] then Inl (Error ''Image is missing.'')
     else Inr (SubmitRequest (make_input config anglePrompt payload)))"

definition submitAngle ::
  "settings \<Rightarrow> (request \<Rightarrow> fetch_result) \<Rightarrow> string \<Rightarrow> string
    \<Rightarrow> effect list \<times> (js_error + submitted)" where
  "submitAngle config net anglePrompt payload =
    (case submit_request config anglePrompt payload of
       Inl e \<Rightarrow> ([], Inl e)
     | Inr req \<Rightarrow> ([Fetch req], submit_response (net req)))"

text \<open>
  \<^verbatim>\<open>String(data?.status || data?.state || '').toLowerCase()\<close>, or the error that the
  conversion throws.
\<close>

definition status_text :: "json option \<Rightarrow> js_error + string" where
  "status_text data =
    (case to_text (js_or (js_or (get data ''status'') (get data ''state'')) (Some (JStr []))) of
       Inl e \<Rightarrow> Inl e
     | Inr shown \<Rightarrow> Inr (toLowerCase shown))"

text \<open>One iteration of the polling loop after its \<^verbatim>\<open>fetch\<close> has settled.\<close>

datatype attempt = Throws js_error | Returns "string list" | Again

definition poll_attempt :: "fetch_result \<Rightarrow> attempt" where
  "poll_attempt res =
    (case res of
       NetworkError reason \<Rightarrow> Throws (Error reason)
     | Response ok body \<Rightarrow>
         (let data = body_data body in
          if \<not> ok then
            Throws (thrown (js_or (js_or (get data ''error'') (get data ''message''))
                              (Some (JStr ''Status request failed.''))))
          else (case status_text data of
                  Inl e \<Rightarrow> Throws e
                | Inr shown \<Rightarrow>
                    if str_includes shown ''fail'' then
                      Throws (thrown (js_or (get data ''error'') (Some (JStr ''Render failed.''))))
                    else if extractImageList data \<noteq> [] then Returns (extractImageList data)
                    else Again)))"

datatype poll_result = Cancelled | Completed "string list"

text \<open>
  \<^verbatim>\<open>pollJob\<close> from iteration \<open>i\<close> on. The environment is given by \<open>cur\<close>, the value of
  \<^verbatim>\<open>runIdRef.current\<close> read at the head of iteration \<open>i\<close>, and \<open>net\<close>, the way the
  status request of iteration \<open>i\<close> settles, \<open>None\<close> when it never settles. The result is
  the list of effects together with the error thrown or the value returned, \<open>None\<close> when
  \<^verbatim>\<open>pollJob\<close> never returns.
\<close>

function pollJob_from ::
  "(nat \<Rightarrow> int) \<Rightarrow> (nat \<Rightarrow> fetch_result option) \<Rightarrow> string \<Rightarrow> int \<Rightarrow> nat
    \<Rightarrow> effect list \<times> (js_error + poll_result) option" where
  "pollJob_from cur net jobId runId i =
    (if i < 120 then
       (if cur i \<noteq> runId then ([], Some (Inr Cancelled))
        else (case net i of
                None \<Rightarrow> ([Fetch (StatusRequest jobId)], None)
              | Some res \<Rightarrow>
                  (case poll_attempt res of
                     Throws e \<Rightarrow> ([Fetch (StatusRequest jobId)], Some (Inl e))
                   | Returns images \<Rightarrow>
                       ([Fetch (StatusRequest jobId)], Some (Inr (Completed images)))
                   | Again \<Rightarrow>
                       (let rest = pollJob_from cur net jobId runId (i + 1)
                        in (Fetch (StatusRequest jobId) # Wait (1500 + i * 40) # fst rest,
                            snd rest)))))
     else ([], Some (Inl (Error ''Render timed out.''))))"
  by pat_completeness auto
termination
  by (relation "measure (\<lambda>(cur, net, jobId, runId, i). 120 - i)") auto

definition pollJob ::
  "(nat \<Rightarrow> int) \<Rightarrow> (nat \<Rightarrow> fetch_result option) \<Rightarrow> string \<Rightarrow> int
    \<Rightarrow> effect list \<times> (js_error + poll_result) option" where
  "pollJob cur net jobId runId = pollJob_from cur net jobId runId 0"

text \<open>The status requests among the effects.\<close>

fun is_status_request :: "effect \<Rightarrow> bool" where
  "is_status_request (Fetch (StatusRequest jobId)) = True"
| "is_status_request _ = False"

definition status_requests :: "effect list \<Rightarrow> nat" where
  "status_requests effects = length (filter is_status_request effects)"

text \<open>The status of a body converts to a text, and the text has no failure marker.\<close>

definition unmarked :: "json option \<Rightarrow> bool" where
  "unmarked data =
    (case status_text data of Inl e \<Rightarrow> False | Inr shown \<Rightarrow> \<not> str_includes shown ''fail'')"

text \<open>
  A status request that leaves the job open: it settles with a response that has a success
  status, a status without failure marker, and no image to extract.
\<close>

fun still_pending :: "fetch_result option \<Rightarrow> bool" where
  "still_pending None = False"
| "still_pending (Some (NetworkError reason)) = False"
| "still_pending (Some (Response ok body)) =
    (ok \<and> unmarked (body_data body) \<and> extractImageList (body_data body) = [])"

section \<open>Bounded task runner\<close>

text \<open>
  \<^verbatim>\<open>runQueue\<close> under the cooperative scheduler. A worker is one of the async callbacks
  that \<^verbatim>\<open>Array.from\<close> creates. Between two suspension points a worker runs without
  interruption, so one step of a worker is: resume from its \<^verbatim>\<open>await\<close> (or start), read
  and increment the cursor, and either return or call the claimed task and suspend on its
  promise. The tasks are opaque: each one is given by what its promise eventually does.
\<close>

datatype worker = Ready | Awaiting nat | Returned | Thrown

datatype promise = NotCalled | Pending | Fulfilled | Rejected

datatype behaviour = Fulfils | Rejects | Hangs

text \<open>
  The cursor, the workers, the promise of each task, and the log of claims (worker, task
  index) in the order in which the tasks were called.
\<close>

record queue =
  cursor :: nat
  workers :: "worker list"
  promises :: "promise list"
  claims :: "(nat \<times> nat) list"

text \<open>\<^verbatim>\<open>Array.from({ length: Math.max(1, concurrency) }, ...)\<close> over \<open>n\<close> tasks.\<close>

definition runQueue :: "nat \<Rightarrow> int \<Rightarrow> queue" where
  "runQueue n concurrency =
    \<lparr>cursor = 0, workers = replicate (nat (max 1 concurrency)) Ready,
     promises = replicate n NotCalled, claims = []\<rparr>"

text \<open>
  One turn of the loop body for worker \<open>w\<close>:
  \<^verbatim>\<open>const index = cursor; cursor += 1; if (index >= tasks.length) return; await tasks[index]()\<close>
\<close>

definition claim :: "nat \<Rightarrow> queue \<Rightarrow> queue" where
  "claim w q =
    (let index = cursor q
     in if index \<ge> length (promises q)
        then q\<lparr>cursor := index + 1, workers := (workers q)[w := Returned]\<rparr>
        else q\<lparr>cursor := index + 1, workers := (workers q)[w := Awaiting index],
               promises := (promises q)[index := Pending],
               claims := claims q @ [(w, index)]\<rparr>)"

text \<open>
  Worker \<open>w\<close> is scheduled: it can run when it has not started yet or when the promise it
  awaits has settled; a rejected promise makes the \<^verbatim>\<open>await\<close> throw, which ends the worker.
\<close>

definition resume :: "nat \<Rightarrow> queue \<Rightarrow> queue option" where
  "resume w q =
    (if w < length (workers q) then
       (case workers q ! w of
          Ready \<Rightarrow> Some (claim w q)
        | Awaiting i \<Rightarrow>
            (if i < length (promises q) \<and> promises q ! i = Fulfilled then Some (claim w q)
             else if i < length (promises q) \<and> promises q ! i = Rejected
             then Some (q\<lparr>workers := (workers q)[w := Thrown]\<rparr>)
             else None)
        | Returned \<Rightarrow> None
        | Thrown \<Rightarrow> None)
     else None)"

text \<open>The promise of task \<open>i\<close> settles, as its behaviour says.\<close>

definition settle :: "behaviour \<Rightarrow> nat \<Rightarrow> queue \<Rightarrow> queue option" where
  "settle b i q =
    (if i < length (promises q) \<and> promises q ! i = Pending then
       (case b of
          Fulfils \<Rightarrow> Some (q\<lparr>promises := (promises q)[i := Fulfilled]\<rparr>)
        | Rejects \<Rightarrow> Some (q\<lparr>promises := (promises q)[i := Rejected]\<rparr>)
        | Hangs \<Rightarrow> None)
     else None)"

datatype event = Resume nat | Settle nat

fun step :: "behaviour list \<Rightarrow> event \<Rightarrow> queue \<Rightarrow> queue option" where
  "step tasks (Resume w) q = resume w q"
| "step tasks (Settle i) q = (if i < length tasks then settle (tasks ! i) i q else None)"

text \<open>A schedule is a list of events; it runs when each event is enabled in its turn.\<close>

fun run :: "behaviour list \<Rightarrow> event list \<Rightarrow> queue \<Rightarrow> queue option" where
  "run tasks [] q = Some q"
| "run tasks (e # es) q = (case step tasks e q of None \<Rightarrow> None | Some q' \<Rightarrow> run tasks es q')"

text \<open>The events that can happen in a state; the runner is quiescent when there is none.\<close>

definition enabled :: "behaviour list \<Rightarrow> queue \<Rightarrow> event list" where
  "enabled tasks q =
    filter (\<lambda>e. step tasks e q \<noteq> None)
      (map Resume [0..<length (workers q)] @ map Settle [0..<length (promises q)])"

text \<open>
  The promise that \<^verbatim>\<open>runQueue\<close> returns, \<^verbatim>\<open>Promise.all(runners)\<close>: rejected once a
  worker has thrown, fulfilled once all workers have returned.
\<close>

definition joined :: "queue \<Rightarrow> promise" where
  "joined q =
    (if Thrown \<in> set (workers q) then Rejected
     else if \<forall>w \<in> set (workers q). w = Returned then Fulfilled
     else Pending)"

text \<open>The tasks that have been called and whose promise has not settled.\<close>

definition in_flight :: "queue \<Rightarrow> nat" where
  "in_flight q = length (filter (\<lambda>p. p = Pending) (promises q))"

section \<open>Render orchestrator\<close>

text \<open>
  The state that the component shares between all runs: the ref \<^verbatim>\<open>runIdRef\<close> and the
  React state that \<^verbatim>\<open>startBatch\<close> and its tasks write. A state setter is modelled as an
  immediate update: React applies the queued updates in the order of the calls. The epoch
  is an unbounded integer.
\<close>

record shared =
  runIdRef :: int
  results :: "AngleResult list"
  selectedIndex :: int
  statusMessage :: string
  isRunning :: bool

text \<open>
  Where a task of \<^verbatim>\<open>startBatch\<close> stands: not called yet; suspended on the submission;
  suspended on the status request of iteration \<open>i\<close> of \<^verbatim>\<open>pollJob\<close> for a job id;
  suspended on the delay after iteration \<open>i\<close>; returned; or ended by an error raised
  outside its \<^verbatim>\<open>try\<close> block.
\<close>

datatype pc =
    Idle
  | Submitting
  | Polling string nat
  | Sleeping string nat
  | Over
  | Crashed js_error

text \<open>
  One call of \<^verbatim>\<open>startBatch\<close> that has passed its guard: the epoch it captured, its
  argument, the views it built, what its closures captured from the render in which the
  callback was created (prompt, settings, and the \<^verbatim>\<open>results\<close> that \<^verbatim>\<open>applyImageAt\<close>
  reads), the state of its \<^verbatim>\<open>runQueue\<close> call and of its tasks, the reason of the first
  worker that threw, and whether the \<^verbatim>\<open>await runQueue(...)\<close> has been passed.
\<close>

record batch =
  runId :: int
  payload :: string
  views :: "AngleView list"
  extra :: string
  config :: settings
  seen :: "AngleResult list"
  pool :: queue
  pcs :: "pc list"
  failure :: "js_error option"
  settled :: bool

record world =
  state :: shared
  batches :: "batch list"
  trace :: "effect list"

text \<open>How a synchronous stretch of a task ends.\<close>

datatype progress = Suspends pc | Finishes | Crashes js_error

text \<open>The three updaters passed to \<^verbatim>\<open>setResults\<close> by a task.\<close>

definition mark_running :: "nat \<Rightarrow> AngleResult list \<Rightarrow> AngleResult list" where
  "mark_running index prev =
    map (\<lambda>(itemIndex, item).
           if itemIndex = index then item\<lparr>status := Running, error := None\<rparr> else item)
      (enumerate 0 prev)"

definition mark_error :: "nat \<Rightarrow> string \<Rightarrow> AngleResult list \<Rightarrow> AngleResult list" where
  "mark_error index message prev =
    map (\<lambda>(itemIndex, item).
           if itemIndex = index then item\<lparr>status := Failed, error := Some message\<rparr> else item)
      (enumerate 0 prev)"

definition bind_image :: "nat \<Rightarrow> string \<Rightarrow> AngleResult list \<Rightarrow> AngleResult list" where
  "bind_image index img prev =
    map (\<lambda>(itemIndex, item).
           item\<lparr>status := (if itemIndex = index then Done else status item),
                image := (if itemIndex = index then Some img else image item)\<rparr>)
      (enumerate 0 prev)"

text \<open>
  \<^verbatim>\<open>applyImageAt\<close>; \<open>captured\<close> is the \<^verbatim>\<open>results\<close> of the render in which the callback
  was created.
\<close>

definition applyImageAt :: "AngleResult list \<Rightarrow> nat \<Rightarrow> string \<Rightarrow> shared \<Rightarrow> shared" where
  "applyImageAt captured index img s =
    s\<lparr>results := bind_image index img (results s),
      selectedIndex :=
        (let prev = selectedIndex s
         in if prev = int index then prev
            else if \<not> has_image (item_at captured prev) then int index
            else prev)\<rparr>"

text \<open>The \<^verbatim>\<open>catch\<close> block of a task.\<close>

definition catch_error :: "batch \<Rightarrow> nat \<Rightarrow> js_error \<Rightarrow> shared \<Rightarrow> shared" where
  "catch_error b index e s =
    (if runIdRef s \<noteq> runId b then s
     else (case e of Error message \<Rightarrow>
             s\<lparr>results := mark_error index message (results s), statusMessage := message\<rparr>))"

text \<open>The task after \<^verbatim>\<open>await pollJob(...)\<close> has returned a value.\<close>

definition poll_returned :: "batch \<Rightarrow> nat \<Rightarrow> poll_result \<Rightarrow> shared \<Rightarrow> shared" where
  "poll_returned b index polled s =
    (if runIdRef s \<noteq> runId b then s
     else (case polled of
             Completed images \<Rightarrow>
               (if images \<noteq> [] then applyImageAt (seen b) index (hd images) s else s)
           | Cancelled \<Rightarrow> s))"

text \<open>
  The head of iteration \<open>i\<close> of the loop of \<^verbatim>\<open>pollJob\<close>, up to its \<^verbatim>\<open>fetch\<close>; when
  \<^verbatim>\<open>pollJob\<close> returns or throws here, the task goes on to its end.
\<close>

definition poll_iteration ::
  "batch \<Rightarrow> nat \<Rightarrow> string \<Rightarrow> nat \<Rightarrow> shared \<Rightarrow> shared \<times> progress \<times> effect list" where
  "poll_iteration b index jobId i s =
    (if i < 120 then
       (if runIdRef s \<noteq> runId b then (poll_returned b index Cancelled s, Finishes, [])
        else (s, Suspends (Polling jobId i), [Fetch (StatusRequest jobId)]))
     else (catch_error b index (Error ''Render timed out.'') s, Finishes, []))"

text \<open>A task is called by a worker: it runs up to the \<^verbatim>\<open>fetch\<close> of \<^verbatim>\<open>submitAngle\<close>.\<close>

definition task_called :: "batch \<Rightarrow> nat \<Rightarrow> shared \<Rightarrow> shared \<times> progress \<times> effect list" where
  "task_called b index s =
    (if runIdRef s \<noteq> runId b then (s, Finishes, [])
     else
       (let s1 = s\<lparr>results := mark_running index (results s)\<rparr>;
            view = views b ! index
        in case buildAnglePrompt (azimuth view) (elevation view) (distance view) (extra b) of
             None \<Rightarrow> (s1, Crashes (Error ''Reduce of empty array with no initial value''), [])
           | Some anglePrompt \<Rightarrow>
               (case submit_request (config b) anglePrompt (payload b) of
                  Inl e \<Rightarrow> (catch_error b index e s1, Finishes, [])
                | Inr req \<Rightarrow> (s1, Suspends Submitting, [Fetch req]))))"

text \<open>
  The submission has settled: the rest of \<^verbatim>\<open>submitAngle\<close>, then the task. The job id
  is turned into text where \<^verbatim>\<open>pollJob\<close> builds the address of its first status request,
  after the epoch check of its first iteration; an error of that conversion is caught by
  the task.
\<close>

definition submit_settled ::
  "batch \<Rightarrow> nat \<Rightarrow> fetch_result \<Rightarrow> shared \<Rightarrow> shared \<times> progress \<times> effect list" where
  "submit_settled b index res s =
    (case submit_response res of
       Inl e \<Rightarrow> (catch_error b index e s, Finishes, [])
     | Inr answer \<Rightarrow>
         (if runIdRef s \<noteq> runId b then (s, Finishes, [])
          else (case answer of
                  Images images \<Rightarrow>
                    ((if images \<noteq> [] then applyImageAt (seen b) index (hd images) s else s),
                     Finishes, [])
                | JobId jobId \<Rightarrow>
                    (case js_String jobId of
                       Inl e \<Rightarrow> (catch_error b index e s, Finishes, [])
                     | Inr shown \<Rightarrow> poll_iteration b index shown 0 s))))"

text \<open>The status request of iteration \<open>i\<close> has settled.\<close>

definition poll_settled ::
  "batch \<Rightarrow> nat \<Rightarrow> string \<Rightarrow> nat \<Rightarrow> fetch_result \<Rightarrow> shared
    \<Rightarrow> shared \<times> progress \<times> effect list" where
  "poll_settled b index jobId i res s =
    (case poll_attempt res of
       Throws e \<Rightarrow> (catch_error b index e s, Finishes, [])
     | Returns images \<Rightarrow> (poll_returned b index (Completed images) s, Finishes, [])
     | Again \<Rightarrow> (s, Suspends (Sleeping jobId i), [Wait (1500 + i * 40)]))"

text \<open>The delay after iteration \<open>i\<close> is over: \<^verbatim>\<open>i += 1\<close> and the next iteration.\<close>

definition timer_fired ::
  "batch \<Rightarrow> nat \<Rightarrow> string \<Rightarrow> nat \<Rightarrow> shared \<Rightarrow> shared \<times> progress \<times> effect list" where
  "timer_fired b index jobId i s = poll_iteration b index jobId (i + 1) s"

text \<open>
  \<^verbatim>\<open>startBatch\<close> after \<^verbatim>\<open>await runQueue(...)\<close>: the rest of the \<^verbatim>\<open>try\<close> block when the
  promise is fulfilled, the \<^verbatim>\<open>catch\<close> block when it is rejected, then \<^verbatim>\<open>finally\<close>.
\<close>

definition finally_block :: "batch \<Rightarrow> shared \<Rightarrow> shared" where
  "finally_block b s = (if runIdRef s = runId b then s\<lparr>isRunning := False\<rparr> else s)"

definition batch_joined :: "batch \<Rightarrow> shared \<Rightarrow> shared option" where
  "batch_joined b s =
    (case joined (pool b) of
       Fulfilled \<Rightarrow>
         Some (finally_block b (if runIdRef s = runId b then s\<lparr>statusMessage := ''Completed.''\<rparr> else s))
     | Rejected \<Rightarrow>
         (case failure b of
            None \<Rightarrow> None
          | Some (Error message) \<Rightarrow>
              Some (finally_block b
                (s\<lparr>statusMessage := message,
                   results := map (\<lambda>item. item\<lparr>status := Failed, error := Some message\<rparr>)
                                (results s)\<rparr>)))
     | _ \<Rightarrow> None)"

text \<open>
  What \<^verbatim>\<open>startBatch\<close> reads from the render that created it, and the ids that
  \<^verbatim>\<open>makeId\<close> will return (the \<open>k\<close>-th call returns \<open>makeId k\<close>).
\<close>

record launch =
  makeId :: "nat \<Rightarrow> string"
  elevation_now :: number
  distance_now :: number
  prompt_now :: string
  settings_now :: settings
  results_now :: "AngleResult list"

definition buildViews :: "number \<Rightarrow> number \<Rightarrow> AngleView list" where
  "buildViews el di =
    map (\<lambda>angle. \<lparr>azimuth = angle, elevation = el, distance = di\<rparr>) ANGLE_PRESETS"

text \<open>The list passed to \<^verbatim>\<open>setResults\<close> at the start of a run.\<close>

definition queued_results :: "(nat \<Rightarrow> string) \<Rightarrow> AngleView list \<Rightarrow> AngleResult list" where
  "queued_results ids vs =
    map (\<lambda>(k, view).
           \<lparr>azimuth = azimuth view, elevation = elevation view, distance = distance view,
            id = ids k, status = Queued, image = None, seed = None, error = None\<rparr>)
      (enumerate 0 vs)"

text \<open>
  \<^verbatim>\<open>startBatch\<close> up to the call of \<^verbatim>\<open>runQueue\<close>: the guard, the new epoch, the reset
  of the shared state, and the task list with its workers, none of which has run yet.
\<close>

definition startBatch :: "string \<Rightarrow> launch \<Rightarrow> world \<Rightarrow> world" where
  "startBatch payload' env w =
    (if payload' = [] then w
     else
       (let runId' = runIdRef (state w) + 1;
            vs = buildViews (elevation_now env) (distance_now env);
            s = (state w)\<lparr>runIdRef := runId', isRunning := True,
                  statusMessage := ''Rendering '' @ digits ANGLE_COUNT @ '' angles...'',
                  results := queued_results (makeId env) vs, selectedIndex := 0\<rparr>;
            b = \<lparr>runId = runId', payload = payload', views = vs, extra = prompt_now env,
                 config = settings_now env, seen = results_now env,
                 pool = runQueue (length vs) MAX_PARALLEL, pcs = replicate (length vs) Idle,
                 failure = None, settled = False\<rparr>
        in w\<lparr>state := s, batches := batches w @ [b]\<rparr>))"

text \<open>A stretch of task \<open>i\<close> of a batch has ended with progress \<open>p\<close>.\<close>

definition task_ended :: "nat \<Rightarrow> progress \<Rightarrow> batch \<Rightarrow> batch" where
  "task_ended i p b =
    (case p of
       Suspends next \<Rightarrow> b\<lparr>pcs := (pcs b)[i := next]\<rparr>
     | Finishes \<Rightarrow>
         b\<lparr>pcs := (pcs b)[i := Over],
           pool := (pool b)\<lparr>promises := (promises (pool b))[i := Fulfilled]\<rparr>\<rparr>
     | Crashes e \<Rightarrow>
         b\<lparr>pcs := (pcs b)[i := Crashed e],
           pool := (pool b)\<lparr>promises := (promises (pool b))[i := Rejected]\<rparr>\<rparr>)"

text \<open>The reason with which the \<^verbatim>\<open>await\<close> of worker \<open>w\<close> throws.\<close>

definition thrown_reason :: "batch \<Rightarrow> nat \<Rightarrow> js_error option" where
  "thrown_reason b w =
    (case workers (pool b) ! w of
       Awaiting i \<Rightarrow> (case pcs b ! i of Crashed e \<Rightarrow> Some e | _ \<Rightarrow> None)
     | _ \<Rightarrow> None)"

text \<open>
  The things that can happen: \<^verbatim>\<open>startBatch\<close> is called; a worker of batch \<open>r\<close> is
  resumed; the submission or the status request of task \<open>i\<close> of batch \<open>r\<close> settles, in
  the given way; its delay is over; batch \<open>r\<close> passes its \<^verbatim>\<open>await runQueue(...)\<close>.
\<close>

datatype action =
    Start string launch
  | Work nat nat
  | SubmitDone nat nat fetch_result
  | PollDone nat nat fetch_result
  | TimerDone nat nat
  | Join nat

definition advance ::
  "nat \<Rightarrow> nat \<Rightarrow> batch \<Rightarrow> shared \<times> progress \<times> effect list \<Rightarrow> world \<Rightarrow> world" where
  "advance r i b out w =
    (case out of (s, p, effects) \<Rightarrow>
       w\<lparr>state := s, batches := (batches w)[r := task_ended i p b],
         trace := trace w @ effects\<rparr>)"

fun perform :: "action \<Rightarrow> world \<Rightarrow> world option" where
  "perform (Start payload' env) w = Some (startBatch payload' env w)"
| "perform (Work r k) w =
    (if r < length (batches w) then
       (let b = batches w ! r
        in case resume k (pool b) of
             None \<Rightarrow> None
           | Some q \<Rightarrow>
               if length (claims (pool b)) < length (claims q)
               then Some (advance r (cursor (pool b)) (b\<lparr>pool := q\<rparr>)
                            (task_called b (cursor (pool b)) (state w)) w)
               else Some (w\<lparr>batches := (batches w)
                            [r := b\<lparr>pool := q,
                                   failure := (if workers q ! k = Thrown \<and> failure b = None
                                               then thrown_reason b k else failure b)\<rparr>]\<rparr>))
     else None)"
| "perform (SubmitDone r i res) w =
    (if r < length (batches w) \<and> i < length (pcs (batches w ! r)) then
       (let b = batches w ! r
        in case pcs b ! i of
             Submitting \<Rightarrow> Some (advance r i b (submit_settled b i res (state w)) w)
           | _ \<Rightarrow> None)
     else None)"
| "perform (PollDone r i res) w =
    (if r < length (batches w) \<and> i < length (pcs (batches w ! r)) then
       (let b = batches w ! r
        in case pcs b ! i of
             Polling jobId n \<Rightarrow> Some (advance r i b (poll_settled b i jobId n res (state w)) w)
           | _ \<Rightarrow> None)
     else None)"
| "perform (TimerDone r i) w =
    (if r < length (batches w) \<and> i < length (pcs (batches w ! r)) then
       (let b = batches w ! r
        in case pcs b ! i of
             Sleeping jobId n \<Rightarrow> Some (advance r i b (timer_fired b i jobId n (state w)) w)
           | _ \<Rightarrow> None)
     else None)"
| "perform (Join r) w =
    (if r < length (batches w) \<and> \<not> settled (batches w ! r) then
       (let b = batches w ! r
        in case batch_joined b (state w) of
             None \<Rightarrow> None
           | Some s \<Rightarrow> Some (w\<lparr>state := s, batches := (batches w)[r := b\<lparr>settled := True\<rparr>]\<rparr>))
     else None)"

fun execute :: "action list \<Rightarrow> world \<Rightarrow> world option" where
  "execute [] w = Some w"
| "execute (a # as) w = (case perform a w of None \<Rightarrow> None | Some w' \<Rightarrow> execute as w')"

text \<open>The batch whose continuation an action is; \<open>None\<close> for a call of \<^verbatim>\<open>startBatch\<close>.\<close>

fun batch_of :: "action \<Rightarrow> nat option" where
  "batch_of (Start payload' env) = None"
| "batch_of (Work r k) = Some r"
| "batch_of (SubmitDone r i res) = Some r"
| "batch_of (PollDone r i res) = Some r"
| "batch_of (TimerDone r i) = Some r"
| "batch_of (Join r) = Some r"

text \<open>The component when it is mounted.\<close>

definition mounted :: world where
  "mounted =
    \<lparr>state = \<lparr>runIdRef = 0, results = [], selectedIndex = 0,
               statusMessage = ''Upload an image to render all angles.'', isRunning = False\<rparr>,
     batches = [], trace = []\<rparr>"

section \<open>Invariants of the task runner\<close>

text \<open>
  The predicates below describe the reachable states of the runner for \<open>n\<close> tasks and
  \<open>W\<close> workers: the sizes stay fixed; the claims are the indices below the cursor, in
  order; a promise has been called exactly when its index is below the cursor; a worker
  only awaits a task that was called; every pending promise, and every rejected promise
  that has not yet ended its worker, is awaited by a worker; a worker returns only when
  the cursor has passed the last task. \<open>remaining\<close> bounds the number of steps still
  possible, \<open>clean\<close> says that nothing has been rejected, and \<open>one_by_one\<close> describes the
  runs of a single worker.
\<close>

definition sized :: "nat \<Rightarrow> nat \<Rightarrow> queue \<Rightarrow> bool" where
  "sized n W q \<longleftrightarrow> length (workers q) = W \<and> length (promises q) = n"

definition claims_ok :: "nat \<Rightarrow> nat \<Rightarrow> queue \<Rightarrow> bool" where
  "claims_ok n W q \<longleftrightarrow>
     map snd (claims q) = [0..<min (cursor q) n] \<and> (\<forall>c \<in> set (claims q). fst c < W)"

definition called_ok :: "nat \<Rightarrow> queue \<Rightarrow> bool" where
  "called_ok n q \<longleftrightarrow> (\<forall>i<n. (promises q ! i = NotCalled) = (cursor q \<le> i))"

definition await_ok :: "nat \<Rightarrow> nat \<Rightarrow> queue \<Rightarrow> bool" where
  "await_ok n W q \<longleftrightarrow> (\<forall>w<W. \<forall>i. workers q ! w = Awaiting i \<longrightarrow> i < n \<and> i < cursor q)"

definition pending_ok :: "nat \<Rightarrow> nat \<Rightarrow> queue \<Rightarrow> bool" where
  "pending_ok n W q \<longleftrightarrow>
     (\<forall>i<n. promises q ! i = Pending \<longrightarrow> (\<exists>w<W. workers q ! w = Awaiting i))"

definition rejected_ok :: "nat \<Rightarrow> nat \<Rightarrow> queue \<Rightarrow> bool" where
  "rejected_ok n W q \<longleftrightarrow>
     (\<forall>i<n. promises q ! i = Rejected \<longrightarrow>
        (\<exists>w<W. workers q ! w = Awaiting i \<or> workers q ! w = Thrown))"

definition returned_ok :: "nat \<Rightarrow> nat \<Rightarrow> queue \<Rightarrow> bool" where
  "returned_ok n W q \<longleftrightarrow> (\<forall>w<W. workers q ! w = Returned \<longrightarrow> n \<le> cursor q)"

definition queue_inv :: "nat \<Rightarrow> nat \<Rightarrow> queue \<Rightarrow> bool" where
  "queue_inv n W q \<longleftrightarrow>
     sized n W q \<and> claims_ok n W q \<and> called_ok n q \<and> await_ok n W q
     \<and> pending_ok n W q \<and> rejected_ok n W q \<and> returned_ok n W q"

definition can_claim :: "nat \<Rightarrow> queue \<Rightarrow> bool" where
  "can_claim w q \<longleftrightarrow>
     workers q ! w = Ready \<or> (\<exists>i. workers q ! w = Awaiting i \<and> promises q ! i = Fulfilled)"

definition active :: "queue \<Rightarrow> nat" where
  "active q = length (filter (\<lambda>w. w \<noteq> Returned \<and> w \<noteq> Thrown) (workers q))"

definition remaining :: "queue \<Rightarrow> nat" where
  "remaining q = 2 * (length (promises q) - cursor q) + in_flight q + active q"

definition clean :: "queue \<Rightarrow> bool" where
  "clean q \<longleftrightarrow> Rejected \<notin> set (promises q) \<and> Thrown \<notin> set (workers q)"

definition one_by_one :: "queue \<Rightarrow> bool" where
  "one_by_one q \<longleftrightarrow>
     length (workers q) = 1
   \<and> (workers q ! 0 = Ready \<longrightarrow> cursor q = 0)
   \<and> (\<forall>i. workers q ! 0 = Awaiting i \<longrightarrow> cursor q = Suc i)
   \<and> (\<forall>i<length (promises q). Suc i < cursor q \<longrightarrow> promises q ! i = Fulfilled)"

text \<open>
  Two invariants of the orchestrator: the epoch counts the batches started so far, batch
  \<open>r\<close> having captured epoch \<open>r + 1\<close>; and no task of any batch has been rejected.
\<close>

definition epochs_ok :: "world \<Rightarrow> bool" where
  "epochs_ok w \<longleftrightarrow>
     runIdRef (state w) = int (length (batches w))
     \<and> (\<forall>r<length (batches w). runId (batches w ! r) = int r + 1)"

definition pools_clean :: "world \<Rightarrow> bool" where
  "pools_clean w \<longleftrightarrow> (\<forall>b \<in> set (batches w). clean (pool b))"

section \<open>Example inputs\<close>

definition sample_results :: "AngleResult list" where
  "sample_results =
    [\<lparr>azimuth = 0, elevation = 0, distance = 1, id = ''a'', status = Done,
       image = Some ''data:image/png;base64,AAAA'', seed = None, error = None\<rparr>,
     \<lparr>azimuth = 45, elevation = 0, distance = 1, id = ''b'', status = Queued,
       image = None, seed = None, error = None\<rparr>,
     \<lparr>azimuth = 90, elevation = 0, distance = 1, id = ''c'', status = Queued,
       image = None, seed = None, error = None\<rparr>,
     \<lparr>azimuth = 135, elevation = 0, distance = 1, id = ''d'', status = Done,
       image = Some ''data:image/png;base64,BBBB'', seed = None, error = None\<rparr>]"

text \<open>
  Results lists of four entries in which only the last entry, only the first entry, or no
  entry has an image.
\<close>

definition blank :: "number \<Rightarrow> AngleResult" where
  "blank az = \<lparr>azimuth = az, elevation = 0, distance = 1, id = ''x'', status = Queued,
       image = None, seed = None, error = None\<rparr>"
definition shot :: "number \<Rightarrow> AngleResult" where
  "shot az = \<lparr>azimuth = az, elevation = 0, distance = 1, id = ''y'', status = Done,
       image = Some ''data:image/png;base64,CCCC'', seed = None, error = None\<rparr>"
definition only_last :: "AngleResult list" where
  "only_last = [blank 0, blank 45, blank 90, shot 135]"
definition only_first :: "AngleResult list" where
  "only_first = [shot 0, blank 45, blank 90, blank 135]"
definition no_images :: "AngleResult list" where
  "no_images = [blank 0, blank 45, blank 90, blank 135]"

text \<open>
  Status endpoints and epoch histories: an endpoint that always answers
  \<^verbatim>\<open>{status: "IN_PROGRESS"}\<close>, one that always answers with an error status code and a
  body that is not JSON, an epoch that stays at 7, and one that is bumped to 8 before the
  third iteration.
\<close>

definition in_progress :: fetch_result where
  "in_progress = Response True (Some (JObj [(''status'', JStr ''IN_PROGRESS'')]))"

definition pending_endpoint :: "nat \<Rightarrow> fetch_result option" where
  "pending_endpoint i = Some in_progress"

definition refusing_endpoint :: "nat \<Rightarrow> fetch_result option" where
  "refusing_endpoint i = Some (Response False None)"

text \<open>An endpoint that answers twice and then never again.\<close>

definition stalling_endpoint :: "nat \<Rightarrow> fetch_result option" where
  "stalling_endpoint i = (if i < 2 then Some in_progress else None)"

text \<open>A response whose status is an object with a member named \<^verbatim>\<open>toString\<close>.\<close>

definition odd_status :: fetch_result where
  "odd_status = Response True (Some (JObj [(''status'', JObj [(''toString'', JNum ''1'')])]))"

definition odd_endpoint :: "nat \<Rightarrow> fetch_result option" where
  "odd_endpoint i = Some odd_status"

definition steady_epoch :: "nat \<Rightarrow> int" where
  "steady_epoch i = 7"

definition bumped_epoch :: "nat \<Rightarrow> int" where
  "bumped_epoch i = (if i < 2 then 7 else 8)"



definition eight_tasks :: "behaviour list" where
  "eight_tasks = replicate 8 Fulfils"

definition first_three :: "event list" where
  "first_three = [Resume 0, Resume 1, Resume 2]"

definition two_tasks :: "behaviour list" where
  "two_tasks = [Fulfils, Fulfils]"

definition in_turn :: "event list" where
  "in_turn = [Resume 0, Settle 0, Resume 0, Settle 1, Resume 0]"

definition failing_tasks :: "behaviour list" where
  "failing_tasks = [Rejects, Fulfils]"

definition first_fails :: "event list" where
  "first_fails = [Resume 0, Settle 0, Resume 0]"

text \<open>
  A first upload with the settings the component starts with, a second upload while the
  first run waits for the answer to its first submission, and that answer arriving late.
\<close>

definition default_settings :: settings where
  "default_settings =
    \<lparr>guidanceScale = 35/10, steps = 16, width = 512, height = 512, seedValue = 1234,
     randomizeSeed = True\<rparr>"

definition sample_id :: "nat \<Rightarrow> string" where
  "sample_id k = ''id-'' @ digits k"

definition first_launch :: launch where
  "first_launch =
    \<lparr>makeId = sample_id, elevation_now = 20, distance_now = 1,
     prompt_now = ''clean studio photo, centered subject, soft rim light'',
     settings_now = default_settings, results_now = []\<rparr>"

definition image_answer :: fetch_result where
  "image_answer = Response True (Some (JObj [(''images'', JArr [JStr ''AAAA''])]))"

definition supersede :: "action list" where
  "supersede = [Start ''AAAA'' first_launch, Work 0 0, Start ''BBBB'' first_launch]"

definition late_answer :: action where
  "late_answer = SubmitDone 0 0 image_answer"

definition uninterrupted :: "action list" where
  "uninterrupted = [Start ''AAAA'' first_launch, Work 0 0]"

section \<open>Properties of preset snapping\<close>

lemma ANGLE_PRESETS_eq: "ANGLE_PRESETS = [0, 45, 90, 135, 180, 225, 270, 315]"
  by (simp add: ANGLE_PRESETS_def AZIMUTH_MAP_def)

lemma ELEVATION_PRESETS_eq: "ELEVATION_PRESETS = [-30, 0, 30, 60]"
  by (simp add: ELEVATION_PRESETS_def ELEVATION_MAP_def)

lemma DISTANCE_PRESETS_eq:
  "DISTANCE_PRESETS =
    [5404319552844595 / 9007199254740992, 1, 6305039478318694 / 4503599627370496]"
  by (simp add: DISTANCE_PRESETS_def DISTANCE_MAP_def)

text \<open>
  The reduction keeps the accumulator unless the next option is strictly nearer, so after
  any prefix the accumulator is the first of the nearest options seen so far.
\<close>

lemma snap_fold_first_argmin:
  fixes v x :: number
  shows "\<exists>i<length (x # xs).
      foldl (\<lambda>nearest option. if \<bar>option - v\<bar> < \<bar>nearest - v\<bar> then option else nearest) x xs
        = (x # xs) ! i
    \<and> (\<forall>j<length (x # xs). \<bar>(x # xs) ! i - v\<bar> \<le> \<bar>(x # xs) ! j - v\<bar>)
    \<and> (\<forall>j<i. \<bar>(x # xs) ! i - v\<bar> < \<bar>(x # xs) ! j - v\<bar>)"
proof (induction xs rule: rev_induct)
  case Nil
  show ?case by simp
next
  case (snoc y ys)
  let ?f = "\<lambda>nearest option. if \<bar>option - v\<bar> < \<bar>nearest - v\<bar> then option else nearest"
  let ?zs = "x # ys"
  from snoc obtain i where i: "i < length ?zs" "foldl ?f x ys = ?zs ! i"
    and least: "\<forall>j<length ?zs. \<bar>?zs ! i - v\<bar> \<le> \<bar>?zs ! j - v\<bar>"
    and earliest: "\<forall>j<i. \<bar>?zs ! i - v\<bar> < \<bar>?zs ! j - v\<bar>" by blast
  have app: "x # (ys @ [y]) = ?zs @ [y]" by simp
  have old: "(?zs @ [y]) ! j = ?zs ! j" if "j < length ?zs" for j
    using that by (simp only: nth_append if_True)
  have new: "(?zs @ [y]) ! length ?zs = y" by (rule nth_append_length)
  have split: "j < length ?zs \<or> j = length ?zs" if "j < length (?zs @ [y])" for j
    using that by fastforce
  show ?case
  proof (cases "\<bar>y - v\<bar> < \<bar>?zs ! i - v\<bar>")
    case True
    have res: "foldl ?f x (ys @ [y]) = y" using True i by simp
    have "\<bar>y - v\<bar> \<le> \<bar>(?zs @ [y]) ! j - v\<bar>" if "j < length (?zs @ [y])" for j
    proof -
      from split[OF that] show ?thesis
      proof
        assume j: "j < length ?zs"
        with least True old[OF j] show ?thesis by fastforce
      next
        assume "j = length ?zs"
        then show ?thesis by (simp only: new order_refl)
      qed
    qed
    moreover have "\<bar>y - v\<bar> < \<bar>(?zs @ [y]) ! j - v\<bar>" if j: "j < length ?zs" for j
      using least True old[OF j] j by fastforce
    ultimately show ?thesis
      unfolding app using res new
      by (intro exI[of _ "length ?zs"]) (simp only: length_append, simp)
  next
    case False
    have res: "foldl ?f x (ys @ [y]) = ?zs ! i" using False i by simp
    have "\<bar>?zs ! i - v\<bar> \<le> \<bar>(?zs @ [y]) ! j - v\<bar>" if "j < length (?zs @ [y])" for j
    proof -
      from split[OF that] show ?thesis
      proof
        assume j: "j < length ?zs"
        with least old[OF j] show ?thesis by fastforce
      next
        assume "j = length ?zs"
        then have "(?zs @ [y]) ! j = y" by (simp only: new)
        with False show ?thesis by simp
      qed
    qed
    moreover have "\<bar>?zs ! i - v\<bar> < \<bar>(?zs @ [y]) ! j - v\<bar>" if j: "j < i" for j
    proof -
      from j i have "j < length ?zs" by simp
      from old[OF this] earliest j show ?thesis by fastforce
    qed
    ultimately show ?thesis
      unfolding app using i res old[OF i(1)]
      by (intro exI[of _ i]) (simp only: length_append, simp)
  qed
qed

lemma snap_first_argmin:
  assumes "options \<noteq> []"
  shows "\<exists>i<length options. snapToNearest v options = Some (options ! i)
     \<and> (\<forall>j<length options. \<bar>options ! i - v\<bar> \<le> \<bar>options ! j - v\<bar>)
     \<and> (\<forall>j<i. \<bar>options ! i - v\<bar> < \<bar>options ! j - v\<bar>)"
proof -
  from assms obtain x xs where o: "options = x # xs" by (cases options) auto
  show ?thesis unfolding o snapToNearest_def list.case
    using snap_fold_first_argmin[of x xs v] by blast
qed

lemma snap_member:
  assumes "v \<in> set options"
  shows "snapToNearest v options = Some v"
proof -
  from assms have ne: "options \<noteq> []" by auto
  from assms obtain k where k: "k < length options" "options ! k = v"
    by (auto simp: in_set_conv_nth)
  from snap_first_argmin[OF ne, of v] obtain i where i: "i < length options"
    "snapToNearest v options = Some (options ! i)"
    "\<forall>j<length options. \<bar>options ! i - v\<bar> \<le> \<bar>options ! j - v\<bar>" by blast
  from i(3) k have "\<bar>options ! i - v\<bar> \<le> 0" by fastforce
  then have "options ! i = v" by simp
  with i(2) show ?thesis by simp
qed

lemma snap_in_set:
  assumes "snapToNearest v options = Some r"
  shows "r \<in> set options"
proof -
  from assms have ne: "options \<noteq> []" by (auto simp: snapToNearest_def)
  from snap_first_argmin[OF ne, of v] assms show ?thesis by auto
qed

text \<open>
  The comparison of binary64 numbers is a strict order in which not-a-number is below and
  above nothing, and any two other numbers are comparable.
\<close>

lemma less64_not_NaN: "less64 a b \<Longrightarrow> a \<noteq> NaN \<and> b \<noteq> NaN"
  by (cases a; cases b) simp_all

lemma less64_irrefl: "\<not> less64 a a"
  by (cases a) simp_all

lemma less64_trans: "less64 a b \<Longrightarrow> less64 b c \<Longrightarrow> less64 a c"
  by (cases a; cases b; cases c) simp_all

lemma less64_total: "a \<noteq> NaN \<Longrightarrow> b \<noteq> NaN \<Longrightarrow> \<not> less64 a b \<Longrightarrow> a = b \<or> less64 b a"
  by (cases a; cases b) auto

lemma snap64_fold_first_argmin:
  "\<exists>i<length (x # xs).
      foldl (\<lambda>nearest option.
          if less64 (distance64 option v) (distance64 nearest v) then option else nearest) x xs
        = (x # xs) ! i
    \<and> (\<forall>j<length (x # xs). \<not> less64 (distance64 ((x # xs) ! j) v) (distance64 ((x # xs) ! i) v))
    \<and> (\<forall>j<i. less64 (distance64 ((x # xs) ! i) v) (distance64 ((x # xs) ! j) v)
             \<or> distance64 ((x # xs) ! j) v = NaN)"
proof (induction xs rule: rev_induct)
  case Nil
  show ?case by (simp add: less64_irrefl)
next
  case (snoc y ys)
  let ?d = "\<lambda>option. distance64 option v"
  let ?f = "\<lambda>nearest option. if less64 (?d option) (?d nearest) then option else nearest"
  let ?zs = "x # ys"
  from snoc obtain i where i: "i < length ?zs" "foldl ?f x ys = ?zs ! i"
    and least: "\<forall>j<length ?zs. \<not> less64 (?d (?zs ! j)) (?d (?zs ! i))"
    and earliest: "\<forall>j<i. less64 (?d (?zs ! i)) (?d (?zs ! j)) \<or> ?d (?zs ! j) = NaN" by blast
  have app: "x # (ys @ [y]) = ?zs @ [y]" by simp
  have old: "(?zs @ [y]) ! j = ?zs ! j" if "j < length ?zs" for j
    using that by (simp only: nth_append if_True)
  have new: "(?zs @ [y]) ! length ?zs = y" by (rule nth_append_length)
  have split: "j < length ?zs \<or> j = length ?zs" if "j < length (?zs @ [y])" for j
    using that by fastforce
  show ?case
  proof (cases "less64 (?d y) (?d (?zs ! i))")
    case True
    have res: "foldl ?f x (ys @ [y]) = y" using True i by simp
    have a: "\<not> less64 (?d ((?zs @ [y]) ! j)) (?d y)" if "j < length (?zs @ [y])" for j
    proof -
      from split[OF that] show ?thesis
      proof
        assume j: "j < length ?zs"
        with least have "\<not> less64 (?d (?zs ! j)) (?d (?zs ! i))" by blast
        with True less64_trans have "\<not> less64 (?d (?zs ! j)) (?d y)" by blast
        with old[OF j] show ?thesis by simp
      next
        assume "j = length ?zs"
        then show ?thesis by (simp only: new less64_irrefl not_False_eq_True)
      qed
    qed
    have b: "less64 (?d y) (?d ((?zs @ [y]) ! j)) \<or> ?d ((?zs @ [y]) ! j) = NaN"
      if j: "j < length ?zs" for j
    proof (cases "?d (?zs ! j) = NaN")
      case True
      with old[OF j] show ?thesis by simp
    next
      case False
      from least j have n: "\<not> less64 (?d (?zs ! j)) (?d (?zs ! i))" by blast
      from \<open>less64 (?d y) (?d (?zs ! i))\<close> have "?d (?zs ! i) \<noteq> NaN"
        using less64_not_NaN by blast
      from less64_total[OF False this n]
      have "less64 (?d y) (?d (?zs ! j))"
        using \<open>less64 (?d y) (?d (?zs ! i))\<close> less64_trans by metis
      with old[OF j] show ?thesis by simp
    qed
    from a b show ?thesis
      unfolding app using res new
      by (intro exI[of _ "length ?zs"]) (simp only: length_append, simp)
  next
    case False
    have res: "foldl ?f x (ys @ [y]) = ?zs ! i" using False i by simp
    have a: "\<not> less64 (?d ((?zs @ [y]) ! j)) (?d (?zs ! i))" if "j < length (?zs @ [y])" for j
    proof -
      from split[OF that] show ?thesis
      proof
        assume j: "j < length ?zs"
        with least old[OF j] show ?thesis by simp
      next
        assume "j = length ?zs"
        then have "(?zs @ [y]) ! j = y" by (simp only: new)
        with False show ?thesis by simp
      qed
    qed
    have b: "less64 (?d (?zs ! i)) (?d ((?zs @ [y]) ! j)) \<or> ?d ((?zs @ [y]) ! j) = NaN"
      if j: "j < i" for j
    proof -
      from j i have "j < length ?zs" by simp
      from old[OF this] earliest j show ?thesis by simp
    qed
    from a b show ?thesis
      unfolding app using i res old[OF i(1)]
      by (intro exI[of _ i]) (simp only: length_append, simp)
  qed
qed

lemma snap64_first_argmin:
  assumes "options \<noteq> []"
  shows "\<exists>i<length options. snapToNearest64 v options = Some (options ! i)
     \<and> (\<forall>j<length options. \<not> less64 (distance64 (options ! j) v) (distance64 (options ! i) v))
     \<and> (\<forall>j<i. less64 (distance64 (options ! i) v) (distance64 (options ! j) v)
             \<or> distance64 (options ! j) v = NaN)"
proof -
  from assms obtain x xs where o: "options = x # xs" by (cases options) auto
  show ?thesis unfolding o snapToNearest64_def list.case
    using snap64_fold_first_argmin[of x xs v] by blast
qed

text \<open>Where every difference is computed exactly the two reductions agree.\<close>

lemma snap64_fold_exact:
  assumes "\<forall>p \<in> set (a # rest). sub64 (Fin p) (Fin x) = Fin (p - x)"
  shows "foldl (\<lambda>nearest option.
          if less64 (distance64 option (Fin x)) (distance64 nearest (Fin x))
          then option else nearest) (Fin a) (map Fin rest)
     = Fin (foldl (\<lambda>nearest option.
          if \<bar>option - x\<bar> < \<bar>nearest - x\<bar> then option else nearest) a rest)"
  using assms
proof (induction rest arbitrary: a)
  case Nil
  show ?case by simp
next
  case (Cons r rest)
  then have e: "distance64 (Fin r) (Fin x) = Fin \<bar>r - x\<bar>"
    "distance64 (Fin a) (Fin x) = Fin \<bar>a - x\<bar>"
    by (simp_all add: distance64_def)
  show ?case
  proof (cases "\<bar>r - x\<bar> < \<bar>a - x\<bar>")
    case True
    from Cons.prems have "\<forall>p \<in> set (r # rest). sub64 (Fin p) (Fin x) = Fin (p - x)" by simp
    from Cons.IH[OF this] True e show ?thesis by simp
  next
    case False
    from Cons.prems have "\<forall>p \<in> set (a # rest). sub64 (Fin p) (Fin x) = Fin (p - x)" by simp
    from Cons.IH[OF this] False e show ?thesis by simp
  qed
qed

lemma snap64_exact:
  assumes "\<forall>p \<in> set ps. sub64 (Fin p) (Fin x) = Fin (p - x)"
  shows "snapToNearest64 (Fin x) (map Fin ps) = map_option Fin (snapToNearest x ps)"
proof (cases ps)
  case Nil
  then show ?thesis by (simp add: snapToNearest64_def snapToNearest_def)
next
  case (Cons a rest)
  with assms snap64_fold_exact[of a rest x] show ?thesis
    by (simp add: snapToNearest64_def snapToNearest_def)
qed

text \<open>Rounding: the exponent of a number in a binade, and the nearest integer.\<close>

lemma halvings_binade: "2 ^ k \<le> x \<Longrightarrow> x < 2 ^ Suc k \<Longrightarrow> k \<le> n \<Longrightarrow> halvings n x = int k"
proof (induction n arbitrary: k x)
  case 0
  then show ?case by simp
next
  case (Suc n)
  show ?case
  proof (cases "x < 2")
    case True
    have "k = 0"
    proof (rule ccontr)
      assume "k \<noteq> 0"
      then have "(2::real) ^ 1 \<le> 2 ^ k" by (intro power_increasing) simp_all
      with Suc.prems(1) True show False by simp
    qed
    with True show ?thesis by simp
  next
    case False
    then have "k \<noteq> 0" using Suc.prems(2) by (cases k) simp_all
    then obtain m where m: "k = Suc m" by (cases k) simp_all
    with Suc.prems have "2 ^ m \<le> x / 2" "x / 2 < 2 ^ Suc m" "m \<le> n" by simp_all
    from Suc.IH[OF this] False m show ?thesis by simp
  qed
qed

lemma doublings_zero: "doublings n 0 = - int n"
  by (induction n) simp_all

lemma rne_near:
  assumes "of_int n - 1 / 2 < r" "r < of_int n + 1 / 2"
  shows "rne r = n"
proof (cases "of_int n \<le> r")
  case True
  with assms have f: "\<lfloor>r\<rfloor> = n" by (intro floor_unique) simp_all
  with assms show ?thesis by (simp add: rne_def Let_def)
next
  case False
  with assms have f: "\<lfloor>r\<rfloor> = n - 1" by (intro floor_unique) simp_all
  with assms False show ?thesis by (simp add: rne_def Let_def)
qed

lemma rne_of_int: "rne (of_int n) = n"
  by (rule rne_near) simp_all

lemma round64_binade:
  assumes "2 ^ k \<le> \<bar>x\<bar>" "\<bar>x\<bar> < 2 ^ Suc k" "k \<le> 1023"
    and "\<bar>of_int (rne (x / pow2 (int k - 52))) * pow2 (int k - 52)\<bar> < 2 ^ 1024"
  shows "round64 x = Fin (of_int (rne (x / pow2 (int k - 52))) * pow2 (int k - 52))"
proof -
  have "(1::real) \<le> 2 ^ k" by simp
  with assms(1) have "1 \<le> \<bar>x\<bar>" by linarith
  then have "exponent \<bar>x\<bar> = int k"
    using halvings_binade[OF assms(1,2,3)] by (simp add: exponent_def)
  with assms(4) show ?thesis by (simp add: round64_def Let_def abs_less_iff not_le)
qed

lemma round64_zero: "round64 0 = Fin 0"
proof -
  have "rne 0 = 0" using rne_of_int[of 0] by simp
  then show ?thesis by (simp add: round64_def Let_def)
qed

lemma round64_of_int:
  assumes "\<bar>n\<bar> < 2 ^ 53"
  shows "round64 (of_int n) = Fin (of_int n)"
proof (cases "n = 0")
  case True
  then show ?thesis by (simp add: round64_zero)
next
  case False
  then have "1 \<le> nat \<bar>n\<bar>" by simp
  from ex_power_ivl1[OF order_refl this] obtain k where
    k: "2 ^ k \<le> nat \<bar>n\<bar>" "nat \<bar>n\<bar> < 2 ^ (k + 1)" by blast
  have lo: "(2::real) ^ k \<le> \<bar>of_int n\<bar>"
  proof -
    from k(1) have "real (2 ^ k) \<le> real (nat \<bar>n\<bar>)" by (simp only: of_nat_le_iff)
    then show ?thesis by simp
  qed
  have hi: "\<bar>of_int n :: real\<bar> < 2 ^ Suc k"
  proof -
    from k(2) have "real (nat \<bar>n\<bar>) < real (2 ^ (k + 1))" by (simp only: of_nat_less_iff)
    then show ?thesis by simp
  qed
  have k52: "k \<le> 52"
  proof (rule ccontr)
    assume "\<not> k \<le> 52"
    then have "53 \<le> k" by simp
    then have "(2::int) ^ 53 \<le> 2 ^ k" by (intro power_increasing) simp_all
    moreover from k(1) have "int (2 ^ k) \<le> int (nat \<bar>n\<bar>)" by (simp only: of_nat_le_iff)
    then have "(2::int) ^ k \<le> \<bar>n\<bar>" by simp
    ultimately show False using assms by simp
  qed
  then have q: "pow2 (int k - 52) = 1 / 2 ^ (52 - k)"
    by (cases "k = 52") (simp_all add: pow2_def nat_diff_distrib')
  have r: "rne (of_int n * 2 ^ (52 - k)) = n * 2 ^ (52 - k)"
    using rne_of_int[of "n * 2 ^ (52 - k)"] by simp
  have y: "of_int (rne (of_int n / pow2 (int k - 52))) * pow2 (int k - 52) = (of_int n :: real)"
    by (simp add: r q)
  have "\<bar>of_int n :: real\<bar> < 2 ^ 53"
  proof -
    from assms have "(of_int \<bar>n\<bar> :: real) < of_int (2 ^ 53)" by (simp only: of_int_less_iff)
    then show ?thesis by simp
  qed
  also have "(2::real) ^ 53 \<le> 2 ^ 1024" by (intro power_increasing) simp_all
  finally have b: "\<bar>of_int n :: real\<bar> < 2 ^ 1024" .
  from k52 have "k \<le> 1023" by simp
  from round64_binade[OF lo hi this] b y show ?thesis by simp
qed

lemma sub64_int_exact:
  assumes "\<bar>p\<bar> < 2 ^ 52" "\<bar>n\<bar> < 2 ^ 52"
  shows "sub64 (Fin (of_int p)) (Fin (of_int n)) = Fin (of_int p - of_int n)"
proof -
  from assms have "\<bar>p - n\<bar> < 2 ^ 53" by simp
  from round64_of_int[OF this] show ?thesis by simp
qed

text \<open>Against \<open>10^19\<close> every number below 1024 is absorbed.\<close>

lemma round64_absorbed:
  assumes "0 \<le> p" "p < 1024"
  shows "round64 (p - 10000000000000000000) = Fin (- 10000000000000000000)"
proof -
  let ?x = "p - 10000000000000000000 :: real"
  have lo: "2 ^ 63 \<le> \<bar>?x\<bar>" using assms by simp
  have hi: "\<bar>?x\<bar> < 2 ^ Suc 63" using assms by simp
  have q: "pow2 11 = 2048" by (simp add: pow2_def)
  have "rne (?x / 2048) = - 4882812500000000"
    using assms by (intro rne_near) simp_all
  then have y: "of_int (rne (?x / pow2 (int 63 - 52))) * pow2 (int 63 - 52)
      = - 10000000000000000000"
    by (simp add: q)
  have "\<bar>- 10000000000000000000 :: real\<bar> < 2 ^ 1024" by simp
  with round64_binade[OF lo hi _] y show ?thesis by simp
qed

lemma snap64_fold_constant:
  assumes "\<forall>p \<in> set (x # xs). distance64 p v = c"
  shows "foldl (\<lambda>nearest option.
          if less64 (distance64 option v) (distance64 nearest v) then option else nearest) x xs = x"
  using assms by (induction xs rule: rev_induct) (simp_all add: less64_irrefl)

lemma distance64_absorbed:
  assumes "0 \<le> p" "p < 1024"
  shows "distance64 (Fin p) (Fin 10000000000000000000) = Fin 10000000000000000000"
  using round64_absorbed[OF assms] by (simp add: distance64_def)

lemma rne_tie: "even n \<Longrightarrow> rne (of_int n + 1 / 2) = n"
proof -
  have "\<lfloor>of_int n + 1 / 2 :: real\<rfloor> = n" by (intro floor_unique) simp_all
  then show "even n \<Longrightarrow> rne (of_int n + 1 / 2) = n" by (simp add: rne_def Let_def)
qed

lemma round64_large:
  "round64 10000000000000000000 = Fin 10000000000000000000"
  "round64 10000000000000000 = Fin 10000000000000000"
  "round64 (1 - 10000000000000000) = Fin (- 10000000000000000)"
  "round64 (0 - 10000000000000000) = Fin (- 10000000000000000)"
proof -
  have q: "pow2 11 = 2048" "pow2 1 = 2" by (simp_all add: pow2_def)
  have b: "\<bar>10000000000000000000 :: real\<bar> < 2 ^ 1024" "\<bar>10000000000000000 :: real\<bar> < 2 ^ 1024"
    by simp_all
  have r1: "rne (10000000000000000000 / 2048) = 4882812500000000"
    by (intro rne_near) simp_all
  have y1: "of_int (rne (10000000000000000000 / pow2 (int 63 - 52))) * pow2 (int 63 - 52)
      = (10000000000000000000 :: real)" using r1 by (simp add: q)
  show "round64 10000000000000000000 = Fin 10000000000000000000"
    using round64_binade[of 63 10000000000000000000] y1 b by simp
  have r2: "rne (10000000000000000 / 2) = 5000000000000000"
    by (intro rne_near) simp_all
  have y2: "of_int (rne (10000000000000000 / pow2 (int 53 - 52))) * pow2 (int 53 - 52)
      = (10000000000000000 :: real)" using r2 by (simp add: q)
  show "round64 10000000000000000 = Fin 10000000000000000"
    using round64_binade[of 53 10000000000000000] y2 b by simp
  have r3: "rne ((1 - 10000000000000000) / 2) = - 5000000000000000"
    using rne_tie[of "- 5000000000000000"] by simp
  have y3: "of_int (rne ((1 - 10000000000000000) / pow2 (int 53 - 52))) * pow2 (int 53 - 52)
      = (- 10000000000000000 :: real)" using r3 by (simp add: q)
  show "round64 (1 - 10000000000000000) = Fin (- 10000000000000000)"
    using round64_binade[of 53 "1 - 10000000000000000"] y3 b by simp
  have r4: "rne (- 10000000000000000 / 2) = - 5000000000000000"
    by (intro rne_near) simp_all
  have y4: "of_int (rne ((0 - 10000000000000000) / pow2 (int 53 - 52))) * pow2 (int 53 - 52)
      = (- 10000000000000000 :: real)" using r4 by (simp add: q)
  show "round64 (0 - 10000000000000000) = Fin (- 10000000000000000)"
    using round64_binade[of 53 "0 - 10000000000000000"] y4 b by simp
qed

text \<open>
  Claim C5. For every binary64 input value and every non-empty preset list, the reduction
  returns a preset of the list whose computed distance \<^verbatim>\<open>Math.abs(option - value)\<close>, the
  difference rounded to binary64, is not exceeded strictly by that of any preset, and it
  is the first such preset: every preset enumerated before it has a strictly larger
  computed distance, or one that is not a number. Where every difference is computed
  exactly the computed distance is the absolute distance: the result is that of the exact
  reduction \<open>snapToNearest\<close>, a preset at minimal absolute distance from the input, and
  every preset enumerated before it is strictly farther from the input. The differences
  of integers of magnitude below \<open>2^52\<close> are computed exactly.
\<close>

theorem snapToNearest_nearest_first_wins:
  "(options \<noteq> [] \<longrightarrow>
      (\<exists>i<length options. snapToNearest64 v options = Some (options ! i)
        \<and> (\<forall>j<length options.
              \<not> less64 (distance64 (options ! j) v) (distance64 (options ! i) v))
        \<and> (\<forall>j<i. less64 (distance64 (options ! i) v) (distance64 (options ! j) v)
                 \<or> distance64 (options ! j) v = NaN)))
   \<and> (ps \<noteq> [] \<and> (\<forall>p \<in> set ps. sub64 (Fin p) (Fin x) = Fin (p - x)) \<longrightarrow>
      snapToNearest64 (Fin x) (map Fin ps) = map_option Fin (snapToNearest x ps)
      \<and> (\<exists>i<length ps. snapToNearest64 (Fin x) (map Fin ps) = Some (Fin (ps ! i))
            \<and> (\<forall>j<length ps. \<bar>ps ! i - x\<bar> \<le> \<bar>ps ! j - x\<bar>)
            \<and> (\<forall>j<i. \<bar>ps ! i - x\<bar> < \<bar>ps ! j - x\<bar>)))
   \<and> (\<bar>m\<bar> < 2 ^ 52 \<and> \<bar>n\<bar> < 2 ^ 52 \<longrightarrow>
      sub64 (Fin (of_int m)) (Fin (of_int n)) = Fin (of_int m - of_int n))"
proof (intro conjI impI)
  assume "options \<noteq> []"
  then show "\<exists>i<length options. snapToNearest64 v options = Some (options ! i)
        \<and> (\<forall>j<length options.
              \<not> less64 (distance64 (options ! j) v) (distance64 (options ! i) v))
        \<and> (\<forall>j<i. less64 (distance64 (options ! i) v) (distance64 (options ! j) v)
                 \<or> distance64 (options ! j) v = NaN)"
    by (rule snap64_first_argmin)
next
  assume a: "ps \<noteq> [] \<and> (\<forall>p \<in> set ps. sub64 (Fin p) (Fin x) = Fin (p - x))"
  then show e: "snapToNearest64 (Fin x) (map Fin ps) = map_option Fin (snapToNearest x ps)"
    by (intro snap64_exact) blast
  from a have "ps \<noteq> []" by blast
  from snap_first_argmin[OF this, of x] e
  show "\<exists>i<length ps. snapToNearest64 (Fin x) (map Fin ps) = Some (Fin (ps ! i))
            \<and> (\<forall>j<length ps. \<bar>ps ! i - x\<bar> \<le> \<bar>ps ! j - x\<bar>)
            \<and> (\<forall>j<i. \<bar>ps ! i - x\<bar> < \<bar>ps ! j - x\<bar>)"
    by auto
next
  assume "\<bar>m\<bar> < 2 ^ 52 \<and> \<bar>n\<bar> < 2 ^ 52"
  then show "sub64 (Fin (of_int m)) (Fin (of_int n)) = Fin (of_int m - of_int n)"
    by (intro sub64_int_exact) blast+
qed

text \<open>
  The elevation slider value 15 lies exactly between the presets 0 and 30, and all four
  differences are exact; the preset 0, enumerated first, is returned.
\<close>

theorem snapToNearest_nearest_first_wins_witness:
  "map Fin ELEVATION_PRESETS \<noteq> [] \<and> ELEVATION_PRESETS \<noteq> []
   \<and> sub64 (Fin (- 30)) (Fin 15) = Fin (- 45) \<and> sub64 (Fin 0) (Fin 15) = Fin (- 15)
   \<and> sub64 (Fin 30) (Fin 15) = Fin 15 \<and> sub64 (Fin 60) (Fin 15) = Fin 45
   \<and> snapToNearest64 (Fin 15) (map Fin ELEVATION_PRESETS) = Some (Fin 0)
   \<and> \<bar>0 - 15\<bar> = \<bar>30 - (15::number)\<bar>"
proof -
  note t = snapToNearest_nearest_first_wins
  have b: "\<bar>- 30 :: int\<bar> < 2 ^ 52 \<and> \<bar>15 :: int\<bar> < 2 ^ 52" "\<bar>0 :: int\<bar> < 2 ^ 52 \<and> \<bar>15 :: int\<bar> < 2 ^ 52"
    "\<bar>30 :: int\<bar> < 2 ^ 52 \<and> \<bar>15 :: int\<bar> < 2 ^ 52" "\<bar>60 :: int\<bar> < 2 ^ 52 \<and> \<bar>15 :: int\<bar> < 2 ^ 52"
    by simp_all
  have s: "sub64 (Fin (- 30)) (Fin 15) = Fin (- 45)" "sub64 (Fin 0) (Fin 15) = Fin (- 15)"
    "sub64 (Fin 30) (Fin 15) = Fin 15" "sub64 (Fin 60) (Fin 15) = Fin 45"
    using t[of "[NaN]" NaN "[0]" 0 "- 30" 15] t[of "[NaN]" NaN "[0]" 0 0 15]
      t[of "[NaN]" NaN "[0]" 0 30 15] t[of "[NaN]" NaN "[0]" 0 60 15] b
    by simp_all
  have ne: "ELEVATION_PRESETS \<noteq> []" by (simp add: ELEVATION_PRESETS_eq)
  have h: "\<forall>p \<in> set ELEVATION_PRESETS. sub64 (Fin p) (Fin 15) = Fin (p - 15)"
    using s by (simp add: ELEVATION_PRESETS_eq)
  have r: "snapToNearest 15 ELEVATION_PRESETS = Some 0"
    by (simp add: ELEVATION_PRESETS_eq snapToNearest_def)
  from t[of "map Fin ELEVATION_PRESETS" "Fin 15" ELEVATION_PRESETS 15] ne h
  have "snapToNearest64 (Fin 15) (map Fin ELEVATION_PRESETS)
      = map_option Fin (snapToNearest 15 ELEVATION_PRESETS)" by blast
  with r have "snapToNearest64 (Fin 15) (map Fin ELEVATION_PRESETS) = Some (Fin 0)" by simp
  with ne s show ?thesis by simp
qed

text \<open>
  With rounding the returned preset need not be at minimal absolute distance. Against the
  binary64 number \<open>10^19\<close> every azimuth preset is absorbed by the rounding of the
  difference, so all computed distances are equal and the first preset 0 is returned,
  although 315 is strictly nearer. Likewise against \<open>10^16\<close> the presets 0 and 1 have the
  same computed distance and 0 is returned, although 1 is strictly nearer.
\<close>

theorem snapToNearest_absorbed_counterexample:
  "round64 10000000000000000000 = Fin 10000000000000000000
   \<and> snapToNearest64 (Fin 10000000000000000000) (map Fin ANGLE_PRESETS) = Some (Fin 0)
   \<and> Fin 315 \<in> set (map Fin ANGLE_PRESETS)
   \<and> \<bar>315 - 10000000000000000000\<bar> < \<bar>0 - (10000000000000000000 :: real)\<bar>
   \<and> distance64 (Fin 315) (Fin 10000000000000000000)
       = distance64 (Fin 0) (Fin 10000000000000000000)
   \<and> round64 10000000000000000 = Fin 10000000000000000
   \<and> snapToNearest64 (Fin 10000000000000000) [Fin 0, Fin 1] = Some (Fin 0)
   \<and> \<bar>1 - 10000000000000000\<bar> < \<bar>0 - (10000000000000000 :: real)\<bar>"
proof -
  have "\<forall>p \<in> set (map Fin ANGLE_PRESETS).
      distance64 p (Fin 10000000000000000000) = Fin 10000000000000000000"
    by (simp add: ANGLE_PRESETS_eq distance64_absorbed)
  then have a: "snapToNearest64 (Fin 10000000000000000000) (map Fin ANGLE_PRESETS) = Some (Fin 0)"
    using snap64_fold_constant[of "Fin 0" "map Fin [45, 90, 135, 180, 225, 270, 315]"
        "Fin 10000000000000000000" "Fin 10000000000000000000"]
    by (simp add: ANGLE_PRESETS_eq snapToNearest64_def)
  have d: "distance64 (Fin 315) (Fin 10000000000000000000)
       = distance64 (Fin 0) (Fin 10000000000000000000)"
    by (simp add: distance64_absorbed)
  have m: "Fin 315 \<in> set (map Fin ANGLE_PRESETS)" by (simp add: ANGLE_PRESETS_eq)
  have e: "distance64 (Fin 0) (Fin 10000000000000000) = Fin 10000000000000000"
    "distance64 (Fin 1) (Fin 10000000000000000) = Fin 10000000000000000"
    using round64_large(3,4) by (simp_all add: distance64_def)
  have c: "snapToNearest64 (Fin 10000000000000000) [Fin 0, Fin 1] = Some (Fin 0)"
    by (simp add: snapToNearest64_def e)
  from a d m c round64_large(1,2) show ?thesis by simp
qed

text \<open>
  Claim C6. Snapping is idempotent: a value that is a member of the preset list is
  returned unchanged, in particular every azimuth, elevation and distance preset on its
  own list, and snapping the result of a snap again returns the same result.
\<close>

theorem snapToNearest_idempotent:
  "(v \<in> set options \<longrightarrow> snapToNearest v options = Some v)
   \<and> (snapToNearest v options = Some r \<longrightarrow> snapToNearest r options = Some r)
   \<and> (\<forall>p \<in> set ANGLE_PRESETS. snapToNearest p ANGLE_PRESETS = Some p)
   \<and> (\<forall>p \<in> set ELEVATION_PRESETS. snapToNearest p ELEVATION_PRESETS = Some p)
   \<and> (\<forall>p \<in> set DISTANCE_PRESETS. snapToNearest p DISTANCE_PRESETS = Some p)"
  using snap_member snap_in_set by blast

theorem snapToNearest_idempotent_witness:
  "225 \<in> set ANGLE_PRESETS \<and> snapToNearest 225 ANGLE_PRESETS = Some 225
   \<and> snapToNearest 20 ELEVATION_PRESETS = Some 30
   \<and> snapToNearest 30 ELEVATION_PRESETS = Some 30
   \<and> snapToNearest (6305039478318694 / 4503599627370496) DISTANCE_PRESETS
       = Some (6305039478318694 / 4503599627370496)"
proof -
  have m: "225 \<in> set ANGLE_PRESETS"
    "6305039478318694 / 4503599627370496 \<in> set DISTANCE_PRESETS"
    by (simp_all add: ANGLE_PRESETS_eq DISTANCE_PRESETS_eq)
  have s: "snapToNearest 20 ELEVATION_PRESETS = Some 30"
    by (simp add: ELEVATION_PRESETS_eq snapToNearest_def)
  note c = snapToNearest_idempotent[of 225 ANGLE_PRESETS 225]
    snapToNearest_idempotent[of 20 ELEVATION_PRESETS 30]
    snapToNearest_idempotent[of "6305039478318694 / 4503599627370496" DISTANCE_PRESETS
      "6305039478318694 / 4503599627370496"]
  from c m s show ?thesis by blast
qed

section \<open>Properties of the display index\<close>

declare nearest_loop.simps [simp del]

lemma wrapIndex_examples: "wrapIndex 2 4 = 2" "wrapIndex 0 4 = 0"
  by (simp_all add: wrapIndex_def smod_int_alt_def)

text \<open>For a non-empty list \<^verbatim>\<open>wrapIndex\<close> is the remainder with the sign of the divisor.\<close>

lemma wrapIndex_mod:
  assumes "0 < len"
  shows "wrapIndex v len = v mod int len"
proof -
  let ?n = "int len"
  from assms have n: "0 < ?n" by simp
  show ?thesis
  proof (cases "0 \<le> v")
    case True
    then have "v smod ?n = v mod ?n"
      using n by (cases "v = 0") (simp_all add: smod_int_alt_def)
    moreover have "0 \<le> v mod ?n" using n by simp
    then have "0 < v mod ?n + ?n" using n by linarith
    then have "(v mod ?n + ?n) smod ?n = (v mod ?n + ?n) mod ?n"
      using n by (simp add: smod_int_alt_def sgn_if)
    ultimately show ?thesis using assms by (simp add: wrapIndex_def)
  next
    case False
    then have neg: "v < 0" by simp
    define r where "r = (- v) mod ?n"
    have r: "0 \<le> r" "r < ?n" using n by (simp_all add: r_def)
    from neg n have s: "v smod ?n = - r" by (simp add: smod_int_alt_def r_def)
    have pos: "0 < - r + ?n" using r by simp
    then have "(- r + ?n) smod ?n = (- r + ?n) mod ?n"
      using n by (simp add: smod_int_alt_def sgn_if)
    also have "\<dots> = (- r) mod ?n" by simp
    also have "\<dots> = v mod ?n" unfolding r_def by (simp add: mod_minus_eq)
    finally show ?thesis using assms s by (simp add: wrapIndex_def)
  qed
qed

lemma wrapIndex_range: "0 < len \<Longrightarrow> 0 \<le> wrapIndex v len \<and> wrapIndex v len < int len"
  by (simp add: wrapIndex_mod)

text \<open>find at offset\<close>

lemma nearest_loop_found:
  assumes "s \<le> offset" "offset < length items"
    and "\<forall>k. s \<le> k \<and> k < offset \<longrightarrow>
           \<not> has_image (item_at items (wrapIndex (index + int k) (length items)))
         \<and> \<not> has_image (item_at items (wrapIndex (index - int k) (length items)))"
    and "has_image (item_at items (wrapIndex (index + int offset) (length items)))
         \<or> has_image (item_at items (wrapIndex (index - int offset) (length items)))"
  shows "nearest_loop index items s =
    (if has_image (item_at items (wrapIndex (index + int offset) (length items)))
     then wrapIndex (index + int offset) (length items)
     else wrapIndex (index - int offset) (length items))"
  using assms
proof (induction index items s rule: nearest_loop.induct)
  case (1 index items s)
  show ?case
  proof (cases "s = offset")
    case True
    with 1(3,5) show ?thesis
      by (subst nearest_loop.simps) (auto simp: Let_def)
  next
    case False
    with 1(2) have lt: "s < offset" by simp
    with 1(4) have no: "\<not> has_image (item_at items (wrapIndex (index + int s) (length items)))"
      "\<not> has_image (item_at items (wrapIndex (index - int s) (length items)))"
      by auto
    from lt 1(3) have sl: "s < length items" by simp
    have "nearest_loop index items (s + 1) =
      (if has_image (item_at items (wrapIndex (index + int offset) (length items)))
       then wrapIndex (index + int offset) (length items)
       else wrapIndex (index - int offset) (length items))"
      using 1(1)[OF sl refl refl no] lt 1(3,4,5) by simp
    with sl no show ?thesis
      by (subst nearest_loop.simps) (simp add: Let_def)
  qed
qed

lemma nearest_loop_none:
  assumes "\<forall>k. s \<le> k \<and> k < length items \<longrightarrow>
           \<not> has_image (item_at items (wrapIndex (index + int k) (length items)))
         \<and> \<not> has_image (item_at items (wrapIndex (index - int k) (length items)))"
  shows "nearest_loop index items s = - 1"
  using assms
proof (induction index items s rule: nearest_loop.induct)
  case (1 index items s)
  show ?case
  proof (cases "s < length items")
    case True
    with 1(2) have no: "\<not> has_image (item_at items (wrapIndex (index + int s) (length items)))"
      "\<not> has_image (item_at items (wrapIndex (index - int s) (length items)))"
      by auto
    have "nearest_loop index items (s + 1) = - 1"
      using 1(1)[OF True refl refl no] 1(2) by simp
    with True no show ?thesis
      by (subst nearest_loop.simps) (simp add: Let_def)
  next
    case False
    then show ?thesis by (subst nearest_loop.simps) simp
  qed
qed

text \<open>Every other entry of the list is reached to the right of the selection.\<close>

lemma radial_cover:
  assumes "0 \<le> index" "index < int (length items)" "k < length items" "int k \<noteq> index"
  shows "\<exists>offset. 1 \<le> offset \<and> offset < length items
     \<and> wrapIndex (index + int offset) (length items) = int k"
proof -
  let ?n = "int (length items)"
  from assms have n: "0 < length items" by auto
  define d where "d = (int k - index) mod ?n"
  have d: "0 \<le> d" "d < ?n" using n by (simp_all add: d_def)
  have "d \<noteq> 0"
  proof
    assume "d = 0"
    then have "?n dvd (int k - index)" by (simp add: d_def mod_eq_0_iff_dvd)
    moreover from assms have "\<bar>int k - index\<bar> < ?n" by auto
    ultimately have "int k - index = 0" using zdvd_not_zless[of "\<bar>int k - index\<bar>" ?n]
      by (metis abs_0_eq dvd_abs_iff not_less abs_ge_zero order_le_less)
    with assms(4) show False by simp
  qed
  with d have d1: "1 \<le> nat d" "nat d < length items" by auto
  have "wrapIndex (index + int (nat d)) (length items) = (index + d) mod ?n"
    using d n by (simp add: wrapIndex_mod)
  also have "\<dots> = (index + (int k - index)) mod ?n"
    unfolding d_def by (simp add: mod_add_right_eq)
  also have "\<dots> = int k" using assms(3) by simp
  finally show ?thesis using d1 by blast
qed

text \<open>
  Claim C8. The display index is the selection itself when the selected entry has an image.
  Otherwise the search goes outwards from the selection, one offset at a time from 1 up to
  the length of the list minus one, looking first at the entry \<open>offset\<close> places to the right
  and then at the entry \<open>offset\<close> places to the left, both taken modulo the length of the
  list: at the first offset where either of them has an image the result is the right one
  if it has an image and the left one otherwise, and when no offset gives an image (or the
  list is empty) the result is \<open>-1\<close>. Hence the result, when it is not \<open>-1\<close>, is an entry
  with an image, and for a selection inside the list it is \<open>-1\<close> only when no entry has an
  image. In particular, for a results list of four entries where entries 0 and 3 have an
  image and entries 1 and 2 have none, the display index for selection 1 is 0 or 3 and
  never 1 or 2 (it is 0: at offset 1 the right neighbour 2 has no image and the left
  neighbour 0 has one).
\<close>

theorem findNearestImageIndex_fallback:
  "(length items = 4 \<and> has_image (item_at items 0) \<and> has_image (item_at items 3)
      \<and> \<not> has_image (item_at items 1) \<and> \<not> has_image (item_at items 2)
    \<longrightarrow> findNearestImageIndex 1 items \<in> {0, 3}
        \<and> findNearestImageIndex 1 items \<notin> {1, 2}
        \<and> findNearestImageIndex 1 items = 0)
   \<and> (has_image (item_at items index) \<longrightarrow> findNearestImageIndex index items = index)
   \<and> (items = [] \<longrightarrow> findNearestImageIndex index items = - 1)
   \<and> (\<not> has_image (item_at items index) \<and> 1 \<le> offset \<and> offset < length items
       \<and> (\<forall>k. 1 \<le> k \<and> k < offset \<longrightarrow>
              \<not> has_image (item_at items (wrapIndex (index + int k) (length items)))
            \<and> \<not> has_image (item_at items (wrapIndex (index - int k) (length items))))
      \<longrightarrow> (has_image (item_at items (wrapIndex (index + int offset) (length items)))
             \<longrightarrow> findNearestImageIndex index items = wrapIndex (index + int offset) (length items))
        \<and> (\<not> has_image (item_at items (wrapIndex (index + int offset) (length items)))
             \<and> has_image (item_at items (wrapIndex (index - int offset) (length items)))
             \<longrightarrow> findNearestImageIndex index items = wrapIndex (index - int offset) (length items)))
   \<and> (\<not> has_image (item_at items index)
       \<and> (\<forall>k. 1 \<le> k \<and> k < length items \<longrightarrow>
              \<not> has_image (item_at items (wrapIndex (index + int k) (length items)))
            \<and> \<not> has_image (item_at items (wrapIndex (index - int k) (length items))))
      \<longrightarrow> findNearestImageIndex index items = - 1)
   \<and> (0 < len \<longrightarrow> wrapIndex v len = v mod int len)
   \<and> (findNearestImageIndex index items \<noteq> - 1
      \<longrightarrow> has_image (item_at items (findNearestImageIndex index items)))
   \<and> (0 \<le> index \<and> index < int (length items)
      \<longrightarrow> (findNearestImageIndex index items = - 1)
          = (\<forall>k<length items. \<not> has_image (item_at items (int k))))"
  (is "?A \<and> ?B \<and> ?E \<and> ?C1 \<and> ?C2 \<and> ?D \<and> ?P2 \<and> ?P1")
proof -
  let ?n = "length items"
  let ?R = "\<lambda>k. has_image (item_at items (wrapIndex (index + int k) ?n))"
  let ?L = "\<lambda>k. has_image (item_at items (wrapIndex (index - int k) ?n))"
  have B: ?B
    by (auto simp: findNearestImageIndex_def item_at_def has_image_def split: if_splits)
  have E: ?E by (simp add: findNearestImageIndex_def)
  have loop: "findNearestImageIndex index items = nearest_loop index items 1"
    if "\<not> has_image (item_at items index)" "items \<noteq> []"
    using that by (simp add: findNearestImageIndex_def)
  have C1: ?C1
  proof (intro impI, elim conjE)
    assume nh: "\<not> has_image (item_at items index)" and o: "1 \<le> offset" "offset < ?n"
      and none: "\<forall>k. 1 \<le> k \<and> k < offset \<longrightarrow> \<not> ?R k \<and> \<not> ?L k"
    from o have ne: "items \<noteq> []" by auto
    show "(?R offset \<longrightarrow> findNearestImageIndex index items = wrapIndex (index + int offset) ?n)
        \<and> (\<not> ?R offset \<and> ?L offset
             \<longrightarrow> findNearestImageIndex index items = wrapIndex (index - int offset) ?n)"
      using nearest_loop_found[OF o(1) o(2) none] loop[OF nh ne] by auto
  qed
  have C2: ?C2
  proof (intro impI, elim conjE)
    assume nh: "\<not> has_image (item_at items index)"
      and none: "\<forall>k. 1 \<le> k \<and> k < ?n \<longrightarrow> \<not> ?R k \<and> \<not> ?L k"
    show "findNearestImageIndex index items = - 1"
    proof (cases "items = []")
      case True
      then show ?thesis by (simp add: findNearestImageIndex_def)
    next
      case False
      from nearest_loop_none[OF none] loop[OF nh False] show ?thesis by simp
    qed
  qed
  have D: ?D by (simp add: wrapIndex_mod)
  have found: "\<exists>offset. 1 \<le> offset \<and> offset < ?n \<and> (?R offset \<or> ?L offset)
      \<and> findNearestImageIndex index items =
          (if ?R offset then wrapIndex (index + int offset) ?n
           else wrapIndex (index - int offset) ?n)"
    if nh: "\<not> has_image (item_at items index)"
      and ex: "\<exists>k. 1 \<le> k \<and> k < ?n \<and> (?R k \<or> ?L k)"
  proof -
    define P where "P k \<longleftrightarrow> 1 \<le> k \<and> k < ?n \<and> (?R k \<or> ?L k)" for k
    from ex have "\<exists>k. P k" by (simp add: P_def)
    then obtain m where m: "P m" and least: "\<And>k. P k \<Longrightarrow> m \<le> k"
      using LeastI_ex[of P] Least_le[of P] by blast
    from m have o: "1 \<le> m" "m < ?n" and img: "?R m \<or> ?L m" by (simp_all add: P_def)
    have none: "\<forall>k. 1 \<le> k \<and> k < m \<longrightarrow> \<not> ?R k \<and> \<not> ?L k"
    proof (intro allI impI)
      fix k assume k: "1 \<le> k \<and> k < m"
      show "\<not> ?R k \<and> \<not> ?L k"
      proof (rule ccontr)
        assume "\<not> (\<not> ?R k \<and> \<not> ?L k)"
        with k o have "P k" by (auto simp: P_def)
        from least[OF this] k show False by simp
      qed
    qed
    from o have ne: "items \<noteq> []" by auto
    from nearest_loop_found[OF o(1) o(2) none img] loop[OF nh ne] o img
    show ?thesis by (intro exI[of _ m]) simp
  qed
  have P2: ?P2
  proof
    assume r: "findNearestImageIndex index items \<noteq> - 1"
    show "has_image (item_at items (findNearestImageIndex index items))"
    proof (cases "has_image (item_at items index)")
      case True
      with B show ?thesis by simp
    next
      case False
      have "\<exists>k. 1 \<le> k \<and> k < ?n \<and> (?R k \<or> ?L k)"
      proof (rule ccontr)
        assume "\<not> ?thesis"
        then have "\<forall>k. 1 \<le> k \<and> k < ?n \<longrightarrow> \<not> ?R k \<and> \<not> ?L k" by blast
        with C2 False r show False by blast
      qed
      from found[OF False this] show ?thesis by (auto split: if_splits)
    qed
  qed
  have P1: ?P1
  proof (intro impI, elim conjE)
    assume i: "0 \<le> index" "index < int ?n"
    show "(findNearestImageIndex index items = - 1)
        = (\<forall>k<?n. \<not> has_image (item_at items (int k)))"
    proof
      assume r: "findNearestImageIndex index items = - 1"
      show "\<forall>k<?n. \<not> has_image (item_at items (int k))"
      proof (intro allI impI notI)
        fix k assume k: "k < ?n" and h: "has_image (item_at items (int k))"
        have nh: "\<not> has_image (item_at items index)"
          using B r i by auto
        with h have "int k \<noteq> index" by auto
        from radial_cover[OF i k this] obtain offset where
          o: "1 \<le> offset" "offset < ?n" "wrapIndex (index + int offset) ?n = int k" by blast
        with h have "\<exists>j. 1 \<le> j \<and> j < ?n \<and> (?R j \<or> ?L j)" by auto
        from found[OF nh this] obtain m where m: "1 \<le> m" "m < ?n"
          "findNearestImageIndex index items =
             (if ?R m then wrapIndex (index + int m) ?n else wrapIndex (index - int m) ?n)"
          by blast
        from m(2) have "0 < ?n" by (cases items) auto
        then have "0 \<le> wrapIndex (index + int m) ?n" "0 \<le> wrapIndex (index - int m) ?n"
          using wrapIndex_range by blast+
        with m(3) r show False by (auto split: if_splits)
      qed
    next
      assume none: "\<forall>k<?n. \<not> has_image (item_at items (int k))"
      have any: "\<not> has_image (item_at items j)" for j
      proof (cases "0 \<le> j \<and> j < int ?n")
        case True
        then have "nat j < ?n" "int (nat j) = j" by auto
        with none[rule_format, of "nat j"] show ?thesis by simp
      next
        case False
        then show ?thesis by (auto simp: item_at_def has_image_def)
      qed
      with C2 show "findNearestImageIndex index items = - 1" by blast
    qed
  qed
  have A: ?A
  proof (intro impI)
    assume a: "length items = 4 \<and> has_image (item_at items 0) \<and> has_image (item_at items 3)
      \<and> \<not> has_image (item_at items 1) \<and> \<not> has_image (item_at items 2)"
    then have ne: "items \<noteq> []" by auto
    have "nearest_loop 1 items 1 = 0"
      by (subst nearest_loop.simps) (simp add: a wrapIndex_examples Let_def)
    with ne a have r: "findNearestImageIndex 1 items = 0"
      by (simp add: findNearestImageIndex_def)
    then show "findNearestImageIndex 1 items \<in> {0, 3}
        \<and> findNearestImageIndex 1 items \<notin> {1, 2}
        \<and> findNearestImageIndex 1 items = 0" by simp
  qed
  from A B E C1 C2 D P2 P1 show ?thesis by blast
qed

theorem findNearestImageIndex_fallback_witness:
  "length sample_results = 4
   \<and> has_image (item_at sample_results 0) \<and> has_image (item_at sample_results 3)
   \<and> \<not> has_image (item_at sample_results 1) \<and> \<not> has_image (item_at sample_results 2)
   \<and> findNearestImageIndex 1 sample_results = 0
   \<and> findNearestImageIndex 3 sample_results = 3
   \<and> findNearestImageIndex 1 only_last = 3
   \<and> findNearestImageIndex 3 only_first = 0
   \<and> findNearestImageIndex 1 no_images = - 1"
proof -
  have h: "length sample_results = 4"
    "has_image (item_at sample_results 0)" "has_image (item_at sample_results 3)"
    "\<not> has_image (item_at sample_results 1)" "\<not> has_image (item_at sample_results 2)"
    by (simp_all add: sample_results_def item_at_def has_image_def)
  have w: "wrapIndex (1 + int 1) 4 = 2" "wrapIndex (1 - int 1) 4 = 0"
    "wrapIndex (1 + int 2) 4 = 3" "wrapIndex (3 + int 1) 4 = 0"
    by (simp_all add: wrapIndex_def smod_int_alt_def)
  have l: "length only_last = 4" "\<not> has_image (item_at only_last 1)"
    "\<not> has_image (item_at only_last 2)" "\<not> has_image (item_at only_last 0)"
    "has_image (item_at only_last 3)"
    by (simp_all add: only_last_def blank_def shot_def item_at_def has_image_def)
  have l1: "\<forall>k. 1 \<le> k \<and> k < (2::nat) \<longrightarrow>
       \<not> has_image (item_at only_last (wrapIndex (1 + int k) (length only_last)))
     \<and> \<not> has_image (item_at only_last (wrapIndex (1 - int k) (length only_last)))"
  proof (intro allI impI)
    fix k :: nat assume "1 \<le> k \<and> k < 2"
    then have "k = 1" by simp
    with l w show "\<not> has_image (item_at only_last (wrapIndex (1 + int k) (length only_last)))
     \<and> \<not> has_image (item_at only_last (wrapIndex (1 - int k) (length only_last)))" by simp
  qed
  have l2: "has_image (item_at only_last (wrapIndex (1 + int 2) (length only_last)))"
    using l w by simp
  have f: "length only_first = 4" "\<not> has_image (item_at only_first 3)"
    "has_image (item_at only_first 0)"
    by (simp_all add: only_first_def blank_def shot_def item_at_def has_image_def)
  have f1: "\<forall>k. 1 \<le> k \<and> k < (1::nat) \<longrightarrow>
       \<not> has_image (item_at only_first (wrapIndex (3 + int k) (length only_first)))
     \<and> \<not> has_image (item_at only_first (wrapIndex (3 - int k) (length only_first)))"
    by simp
  have f2: "has_image (item_at only_first (wrapIndex (3 + int 1) (length only_first)))"
    using f w by simp
  have n: "(0::int) \<le> 1 \<and> 1 < int (length no_images)"
    "\<forall>k<length no_images. \<not> has_image (item_at no_images (int k))"
    by (simp_all add: no_images_def blank_def item_at_def has_image_def
        numeral_eq_Suc All_less_Suc)
  note a = findNearestImageIndex_fallback[of sample_results 3]
  note b = findNearestImageIndex_fallback[of sample_results 1]
  note c = findNearestImageIndex_fallback[of only_last 1 2]
  note d = findNearestImageIndex_fallback[of only_first 3 1]
  note e = findNearestImageIndex_fallback[of no_images 1]
  from h a have r1: "findNearestImageIndex 3 sample_results = 3" by blast
  from h b have r2: "findNearestImageIndex 1 sample_results = 0" by blast
  from c l l1 l2 have "findNearestImageIndex 1 only_last
      = wrapIndex (1 + int 2) (length only_last)" by simp
  with l w have r3: "findNearestImageIndex 1 only_last = 3" by simp
  from d f f1 f2 have "findNearestImageIndex 3 only_first
      = wrapIndex (3 + int 1) (length only_first)" by simp
  with f w have r4: "findNearestImageIndex 3 only_first = 0" by simp
  from e n have r5: "findNearestImageIndex 1 no_images = - 1" by blast
  from h r1 r2 r3 r4 r5 show ?thesis by blast
qed

section \<open>Properties of the job submitter and the job poller\<close>

text \<open>
  Claim C7. For every prompt, \<open>submitAngle\<close> with an empty payload throws the error
  \<^verbatim>\<open>Image is missing.\<close> and sends nothing: the list of effects is empty, whatever the
  settings and whatever the endpoint would have answered.
\<close>

theorem submitAngle_empty_payload_rejected:
  "submitAngle cfg net anglePrompt [] = ([], Inl (Error ''Image is missing.''))"
  by (simp add: submitAngle_def submit_request_def)

declare pollJob_from.simps [simp del]

lemma still_pending_again:
  "still_pending reply \<Longrightarrow> \<exists>res. reply = Some res \<and> poll_attempt res = Again"
proof (cases reply)
  case None
  then show "still_pending reply \<Longrightarrow> ?thesis" by simp
next
  case (Some res)
  then show "still_pending reply \<Longrightarrow> ?thesis"
    by (cases res) (auto simp: poll_attempt_def Let_def unmarked_def split: sum.splits)
qed

lemma in_progress_pending: "still_pending (Some in_progress)"
  by (simp add: in_progress_def body_data_def unmarked_def status_text_def js_or_def
      to_text_def toLowerCase_def lower_char_def startsWith_def extractImageList_def nullish_def)

text \<open>From iteration \<open>i\<close> on, the loop sends at most \<open>120 - i\<close> status requests.\<close>

lemma pollJob_from_requests:
  "status_requests (fst (pollJob_from cur net jobId rid i)) \<le> 120 - i"
proof (induction cur net jobId rid i rule: pollJob_from.induct)
  case (1 cur net jobId rid i)
  show ?case
  proof (cases "i < 120 \<and> cur i = rid \<and> (\<exists>res. net i = Some res \<and> poll_attempt res = Again)")
    case True
    then obtain res where r: "net i = Some res" "poll_attempt res = Again" by blast
    with True 1
    have "status_requests (fst (pollJob_from cur net jobId rid (i + 1))) \<le> 120 - (i + 1)"
      by simp
    with True r show ?thesis
      by (subst pollJob_from.simps) (auto simp: Let_def status_requests_def)
  next
    case False
    then show ?thesis
      by (subst pollJob_from.simps)
         (auto simp: status_requests_def split: attempt.splits option.splits)
  qed
qed

text \<open>When every status request settles, the loop returns.\<close>

lemma pollJob_from_returns:
  "(\<forall>k. i \<le> k \<and> k < 120 \<longrightarrow> net k \<noteq> None) \<Longrightarrow>
   snd (pollJob_from cur net jobId rid i) \<noteq> None"
proof (induction cur net jobId rid i rule: pollJob_from.induct)
  case (1 cur net jobId rid i)
  show ?case
  proof (cases "i < 120 \<and> cur i = rid")
    case True
    with 1(2) obtain res where r: "net i = Some res" by auto
    show ?thesis
    proof (cases "poll_attempt res")
      case Again
      from 1(2) have "\<forall>k. i + 1 \<le> k \<and> k < 120 \<longrightarrow> net k \<noteq> None" by auto
      with 1(1) True r Again have "snd (pollJob_from cur net jobId rid (i + 1)) \<noteq> None"
        by simp
      with True r Again show ?thesis
        by (subst pollJob_from.simps) (simp add: Let_def)
    next
      case (Throws e)
      with True r show ?thesis by (subst pollJob_from.simps) simp
    next
      case (Returns images)
      with True r show ?thesis by (subst pollJob_from.simps) simp
    qed
  next
    case False
    then show ?thesis by (subst pollJob_from.simps) auto
  qed
qed

lemma pollJob_from_timeout:
  "(\<forall>k. i \<le> k \<and> k < 120 \<longrightarrow> cur k = rid \<and> still_pending (net k)) \<Longrightarrow>
   snd (pollJob_from cur net jobId rid i) = Some (Inl (Error ''Render timed out.''))
   \<and> status_requests (fst (pollJob_from cur net jobId rid i)) = 120 - i"
proof (induction cur net jobId rid i rule: pollJob_from.induct)
  case (1 cur net jobId rid i)
  show ?case
  proof (cases "i < 120")
    case True
    with 1(2) have c: "cur i = rid" and "still_pending (net i)" by auto
    then obtain res where r: "net i = Some res" and a: "poll_attempt res = Again"
      using still_pending_again by blast
    from 1(2) have "\<forall>k. i + 1 \<le> k \<and> k < 120 \<longrightarrow> cur k = rid \<and> still_pending (net k)"
      by auto
    with 1(1) True c r a
    have ih: "snd (pollJob_from cur net jobId rid (i + 1))
        = Some (Inl (Error ''Render timed out.''))
      \<and> status_requests (fst (pollJob_from cur net jobId rid (i + 1))) = 120 - (i + 1)"
      by simp
    from True c r a ih show ?thesis
      by (subst (1 2) pollJob_from.simps) (simp add: Let_def status_requests_def)
  next
    case False
    then show ?thesis
      by (subst (1 2) pollJob_from.simps) (simp add: status_requests_def)
  qed
qed

text \<open>
  Claim C4, as amended. Whatever the endpoint does and whatever happens to the epoch,
  \<open>pollJob\<close> sends at most 120 status requests. When every status request settles,
  \<open>pollJob\<close> returns. When, at each of the 120 iterations, the epoch read at the head of
  the iteration is still the captured one and the status request settles with a response
  that has a success status, a status that converts to a text without failure marker, and
  no extractable image, \<open>pollJob\<close> sends exactly 120 status requests and then throws
  \<^verbatim>\<open>Render timed out.\<close>
\<close>

theorem pollJob_attempt_budget:
  "status_requests (fst (pollJob cur net jobId rid)) \<le> 120
   \<and> ((\<forall>i<120. net i \<noteq> None) \<longrightarrow> snd (pollJob cur net jobId rid) \<noteq> None)
   \<and> ((\<forall>i<120. cur i = rid \<and> still_pending (net i)) \<longrightarrow>
        snd (pollJob cur net jobId rid) = Some (Inl (Error ''Render timed out.''))
        \<and> status_requests (fst (pollJob cur net jobId rid)) = 120)"
proof (intro conjI impI)
  show "status_requests (fst (pollJob cur net jobId rid)) \<le> 120"
    using pollJob_from_requests[of cur net jobId rid 0] by (simp add: pollJob_def)
next
  assume "\<forall>i<120. net i \<noteq> None"
  then have "\<forall>k. 0 \<le> k \<and> k < 120 \<longrightarrow> net k \<noteq> None" by simp
  from pollJob_from_returns[OF this, of cur jobId rid]
  show "snd (pollJob cur net jobId rid) \<noteq> None" by (simp add: pollJob_def)
next
  assume a: "\<forall>i<120. cur i = rid \<and> still_pending (net i)"
  then have "\<forall>k. 0 \<le> k \<and> k < 120 \<longrightarrow> cur k = rid \<and> still_pending (net k)" by simp
  from pollJob_from_timeout[OF this, of jobId]
  show "snd (pollJob cur net jobId rid) = Some (Inl (Error ''Render timed out.''))"
    and "status_requests (fst (pollJob cur net jobId rid)) = 120"
    by (simp_all add: pollJob_def)
qed

theorem pollJob_attempt_budget_witness:
  "still_pending (pending_endpoint 0) \<and> steady_epoch 0 = 7
   \<and> snd (pollJob steady_epoch pending_endpoint ''job-1'' 7)
       = Some (Inl (Error ''Render timed out.''))
   \<and> status_requests (fst (pollJob steady_epoch pending_endpoint ''job-1'' 7)) = 120"
  using pollJob_attempt_budget[of steady_epoch pending_endpoint "''job-1''" 7]
  by (simp add: steady_epoch_def pending_endpoint_def in_progress_pending)

text \<open>
  The claim as stated does not hold. A status endpoint that answers with an error status
  code and an empty body sends no image and no failure-marked status, and \<open>pollJob\<close>
  throws \<^verbatim>\<open>Status request failed.\<close> after one request, not a timeout. When the epoch is
  bumped during the polling, \<open>pollJob\<close> returns \<^verbatim>\<open>cancelled\<close> after the requests made so
  far. When a status of the response is an object that cannot be turned into text, the
  conversion throws after one request. And when a status request never settles,
  \<open>pollJob\<close> never returns.
\<close>

theorem pollJob_timeout_counterexample:
  "unmarked (body_data None) \<and> extractImageList (body_data None) = []
   \<and> pollJob steady_epoch refusing_endpoint ''job-1'' 7
       = ([Fetch (StatusRequest ''job-1'')], Some (Inl (Error ''Status request failed.'')))
   \<and> pollJob bumped_epoch pending_endpoint ''job-1'' 7
       = ([Fetch (StatusRequest ''job-1''), Wait 1500, Fetch (StatusRequest ''job-1''), Wait 1540],
          Some (Inr Cancelled))
   \<and> pollJob steady_epoch odd_endpoint ''job-1'' 7
       = ([Fetch (StatusRequest ''job-1'')],
          Some (Inl (Error ''Cannot convert object to primitive value'')))
   \<and> pollJob steady_epoch stalling_endpoint ''job-1'' 7
       = ([Fetch (StatusRequest ''job-1''), Wait 1500, Fetch (StatusRequest ''job-1''), Wait 1540,
           Fetch (StatusRequest ''job-1'')], None)"
proof (intro conjI)
  show "unmarked (body_data None)"
    by (simp add: body_data_def unmarked_def status_text_def js_or_def to_text_def
        toLowerCase_def)
  show "extractImageList (body_data None) = []"
    by (simp add: body_data_def extractImageList_def nullish_def)
  show "pollJob steady_epoch refusing_endpoint ''job-1'' 7
       = ([Fetch (StatusRequest ''job-1'')], Some (Inl (Error ''Status request failed.'')))"
    by (simp add: pollJob_def pollJob_from.simps steady_epoch_def refusing_endpoint_def
        poll_attempt_def body_data_def js_or_def to_text_def thrown_def)
  have again: "poll_attempt in_progress = Again"
    using still_pending_again[OF in_progress_pending] by simp
  show "pollJob bumped_epoch pending_endpoint ''job-1'' 7
       = ([Fetch (StatusRequest ''job-1''), Wait 1500, Fetch (StatusRequest ''job-1''), Wait 1540],
          Some (Inr Cancelled))"
    by (simp add: pollJob_def pollJob_from.simps[of _ _ _ _ 0]
        pollJob_from.simps[of _ _ _ _ "Suc 0"] pollJob_from.simps[of _ _ _ _ "Suc (Suc 0)"]
        bumped_epoch_def pending_endpoint_def again)
  show "pollJob steady_epoch odd_endpoint ''job-1'' 7
       = ([Fetch (StatusRequest ''job-1'')],
          Some (Inl (Error ''Cannot convert object to primitive value'')))"
    by (simp add: pollJob_def pollJob_from.simps steady_epoch_def odd_endpoint_def odd_status_def
        poll_attempt_def body_data_def js_or_def to_text_def status_text_def)
  show "pollJob steady_epoch stalling_endpoint ''job-1'' 7
       = ([Fetch (StatusRequest ''job-1''), Wait 1500, Fetch (StatusRequest ''job-1''), Wait 1540,
           Fetch (StatusRequest ''job-1'')], None)"
    by (simp add: pollJob_def pollJob_from.simps[of _ _ _ _ 0]
        pollJob_from.simps[of _ _ _ _ "Suc 0"] pollJob_from.simps[of _ _ _ _ "Suc (Suc 0)"]
        steady_epoch_def stalling_endpoint_def again)
qed

section \<open>Properties of the bounded task runner\<close>

lemma inv_start: "queue_inv n (nat (max 1 c)) (runQueue n c)"
  by (auto simp: queue_inv_def runQueue_def sized_def claims_ok_def called_ok_def await_ok_def
      pending_ok_def rejected_ok_def returned_ok_def)

lemma claim_fields:
  "cursor (claim w q) = cursor q + 1"
  "workers (claim w q) =
     (workers q)[w := if length (promises q) \<le> cursor q then Returned else Awaiting (cursor q)]"
  "promises (claim w q) = (promises q)[cursor q := Pending]"
  "claims (claim w q) =
     (if length (promises q) \<le> cursor q then claims q else claims q @ [(w, cursor q)])"
  by (simp_all add: claim_def Let_def list_update_beyond)

lemma claim_promise_nth:
  "i < length (promises q) \<Longrightarrow>
   promises (claim w q) ! i = (if i = cursor q then Pending else promises q ! i)"
  by (cases "cursor q < length (promises q)")
     (auto simp: claim_fields nth_list_update list_update_beyond)

lemma claim_sized: "sized n W q \<Longrightarrow> sized n W (claim w q)"
  by (simp add: sized_def claim_fields)

lemma claim_claims_ok: "sized n W q \<Longrightarrow> w < W \<Longrightarrow> claims_ok n W q \<Longrightarrow> claims_ok n W (claim w q)"
  by (auto simp: sized_def claims_ok_def claim_fields min_def)

lemma claim_called_ok: "sized n W q \<Longrightarrow> called_ok n q \<Longrightarrow> called_ok n (claim w q)"
  by (auto simp: sized_def called_ok_def claim_promise_nth claim_fields(1))

lemma claim_await_ok:
  assumes "sized n W q" "await_ok n W q"
  shows "await_ok n W (claim w q)"
  unfolding await_ok_def
proof (intro allI impI)
  fix v i assume v: "v < W" and a: "workers (claim w q) ! v = Awaiting i"
  show "i < n \<and> i < cursor (claim w q)"
  proof (cases "v = w")
    case True
    with a v assms(1) show ?thesis
      by (auto simp: sized_def claim_fields split: if_splits)
  next
    case False
    with a have "workers q ! v = Awaiting i" by (simp add: claim_fields)
    with assms(2) v show ?thesis by (auto simp: await_ok_def claim_fields)
  qed
qed

lemma claim_returned_ok:
  assumes "sized n W q" "returned_ok n W q"
  shows "returned_ok n W (claim w q)"
  unfolding returned_ok_def
proof (intro allI impI)
  fix v assume v: "v < W" and a: "workers (claim w q) ! v = Returned"
  show "n \<le> cursor (claim w q)"
  proof (cases "v = w")
    case True
    with a v assms(1) show ?thesis
      by (auto simp: sized_def claim_fields split: if_splits)
  next
    case False
    with a have "workers q ! v = Returned" by (simp add: claim_fields)
    with assms(2) v show ?thesis by (auto simp: returned_ok_def claim_fields)
  qed
qed

lemma claim_pending_ok:
  assumes "sized n W q" "w < W" "can_claim w q" "pending_ok n W q"
  shows "pending_ok n W (claim w q)"
  unfolding pending_ok_def
proof (intro allI impI)
  fix i assume i: "i < n" and p: "promises (claim w q) ! i = Pending"
  show "\<exists>v<W. workers (claim w q) ! v = Awaiting i"
  proof (cases "cursor q < n \<and> i = cursor q")
    case True
    with assms(1,2) show ?thesis
      by (intro exI[of _ w]) (simp add: sized_def claim_fields)
  next
    case False
    with p i assms(1) have "promises q ! i = Pending"
      by (auto simp: sized_def claim_promise_nth split: if_splits)
    with assms(4) i obtain v where v: "v < W" "workers q ! v = Awaiting i"
      by (auto simp: pending_ok_def)
    with assms(3) \<open>promises q ! i = Pending\<close> have "v \<noteq> w" by (auto simp: can_claim_def)
    with v assms(1) show ?thesis
      by (intro exI[of _ v]) (simp add: sized_def claim_fields)
  qed
qed

lemma claim_rejected_ok:
  assumes "sized n W q" "w < W" "can_claim w q" "rejected_ok n W q"
  shows "rejected_ok n W (claim w q)"
  unfolding rejected_ok_def
proof (intro allI impI)
  fix i assume i: "i < n" and p: "promises (claim w q) ! i = Rejected"
  with assms(1) have r: "promises q ! i = Rejected"
    by (auto simp: sized_def claim_promise_nth split: if_splits)
  with assms(4) i obtain v where v: "v < W" "workers q ! v = Awaiting i \<or> workers q ! v = Thrown"
    by (auto simp: rejected_ok_def)
  with assms(3) r have "v \<noteq> w" by (auto simp: can_claim_def)
  with v assms(1) show "\<exists>v<W. workers (claim w q) ! v = Awaiting i \<or> workers (claim w q) ! v = Thrown"
    by (intro exI[of _ v]) (simp add: sized_def claim_fields)
qed

lemma inv_claim:
  assumes "queue_inv n W q" "w < W" "can_claim w q"
  shows "queue_inv n W (claim w q)"
proof -
  from assms(1) have s: "sized n W q" and c: "claims_ok n W q" and d: "called_ok n q"
    and a: "await_ok n W q" and p: "pending_ok n W q" and r: "rejected_ok n W q"
    and t: "returned_ok n W q"
    by (simp_all add: queue_inv_def)
  show ?thesis
    unfolding queue_inv_def
    using claim_sized[OF s] claim_claims_ok[OF s assms(2) c] claim_called_ok[OF s d]
      claim_await_ok[OF s a] claim_pending_ok[OF s assms(2,3) p]
      claim_rejected_ok[OF s assms(2,3) r] claim_returned_ok[OF s t]
    by simp
qed

lemma inv_throw:
  assumes "queue_inv n W q" "w < W" "workers q ! w = Awaiting i" "promises q ! i = Rejected"
  shows "queue_inv n W (q\<lparr>workers := (workers q)[w := Thrown]\<rparr>)"
proof -
  let ?q = "q\<lparr>workers := (workers q)[w := Thrown]\<rparr>"
  from assms(1) have s: "sized n W q" and c: "claims_ok n W q" and d: "called_ok n q"
    and a: "await_ok n W q" and p: "pending_ok n W q" and r: "rejected_ok n W q"
    and t: "returned_ok n W q"
    by (simp_all add: queue_inv_def)
  from s assms(2) have nth: "workers ?q ! v = (if v = w then Thrown else workers q ! v)" for v
    by (simp add: sized_def nth_list_update)
  have "sized n W ?q" using s by (simp add: sized_def)
  moreover have "claims_ok n W ?q" using c by (simp add: claims_ok_def)
  moreover have "called_ok n ?q" using d by (simp add: called_ok_def)
  moreover have "await_ok n W ?q"
    unfolding await_ok_def
  proof (intro allI impI)
    fix v j assume "v < W" "workers ?q ! v = Awaiting j"
    with a nth[of v] show "j < n \<and> j < cursor ?q"
      by (cases "v = w") (auto simp: await_ok_def)
  qed
  moreover have "pending_ok n W ?q"
    unfolding pending_ok_def
  proof (intro allI impI)
    fix j assume "j < n" "promises ?q ! j = Pending"
    with p obtain v where v: "v < W" "workers q ! v = Awaiting j" and "promises q ! j = Pending"
      by (auto simp: pending_ok_def)
    with assms(3,4) have "v \<noteq> w" by auto
    with v nth[of v] show "\<exists>v<W. workers ?q ! v = Awaiting j"
      by (intro exI[of _ v]) simp
  qed
  moreover have "rejected_ok n W ?q"
    unfolding rejected_ok_def
  proof (intro allI impI)
    fix j assume "j < n" "promises ?q ! j = Rejected"
    with r obtain v where v: "v < W" "workers q ! v = Awaiting j \<or> workers q ! v = Thrown"
      by (auto simp: rejected_ok_def)
    with nth[of v] show "\<exists>v<W. workers ?q ! v = Awaiting j \<or> workers ?q ! v = Thrown"
      by (intro exI[of _ v]) auto
  qed
  moreover have "returned_ok n W ?q"
    unfolding returned_ok_def
  proof (intro allI impI)
    fix v assume "v < W" "workers ?q ! v = Returned"
    with t nth[of v] show "n \<le> cursor ?q"
      by (cases "v = w") (auto simp: returned_ok_def)
  qed
  ultimately show ?thesis by (simp add: queue_inv_def)
qed

lemma inv_resume:
  assumes "queue_inv n W q" "resume w q = Some q'"
  shows "queue_inv n W q'"
proof -
  from assms(2) have w: "w < length (workers q)" by (auto simp: resume_def split: if_splits)
  with assms(1) have wW: "w < W" by (simp add: queue_inv_def sized_def)
  show ?thesis
  proof (cases "workers q ! w")
    case Ready
    with assms(2) w have "q' = claim w q" by (simp add: resume_def)
    with assms(1) wW Ready show ?thesis by (simp add: inv_claim can_claim_def)
  next
    case (Awaiting i)
    with assms(2) w consider "promises q ! i = Fulfilled" "q' = claim w q"
      | "promises q ! i = Rejected" "q' = q\<lparr>workers := (workers q)[w := Thrown]\<rparr>"
      by (auto simp: resume_def split: if_splits)
    then show ?thesis
    proof cases
      case 1
      with assms(1) wW Awaiting show ?thesis by (simp add: inv_claim can_claim_def)
    next
      case 2
      with assms(1) wW Awaiting show ?thesis by (simp add: inv_throw)
    qed
  next
    case Returned
    with assms(2) w show ?thesis by (simp add: resume_def)
  next
    case Thrown
    with assms(2) w show ?thesis by (simp add: resume_def)
  qed
qed

lemma inv_settled:
  assumes "queue_inv n W q" "i < n" "promises q ! i = Pending" "x = Fulfilled \<or> x = Rejected"
  shows "queue_inv n W (q\<lparr>promises := (promises q)[i := x]\<rparr>)"
proof -
  let ?q = "q\<lparr>promises := (promises q)[i := x]\<rparr>"
  from assms(1) have s: "sized n W q" and c: "claims_ok n W q" and d: "called_ok n q"
    and a: "await_ok n W q" and p: "pending_ok n W q" and r: "rejected_ok n W q"
    and t: "returned_ok n W q"
    by (simp_all add: queue_inv_def)
  from s assms(2) have nth: "promises ?q ! j = (if j = i then x else promises q ! j)" for j
    by (simp add: sized_def nth_list_update)
  from p assms(2,3) obtain v where v: "v < W" "workers q ! v = Awaiting i"
    by (auto simp: pending_ok_def)
  have "sized n W ?q" using s by (simp add: sized_def)
  moreover have "claims_ok n W ?q" using c by (simp add: claims_ok_def)
  moreover have "called_ok n ?q"
    unfolding called_ok_def
  proof (intro allI impI)
    fix j assume j: "j < n"
    from d assms(2,3) have "\<not> cursor q \<le> i" by (auto simp: called_ok_def)
    with d j nth[of j] assms(4) show "(promises ?q ! j = NotCalled) = (cursor ?q \<le> j)"
      by (cases "j = i") (auto simp: called_ok_def)
  qed
  moreover have "await_ok n W ?q" using a by (simp add: await_ok_def)
  moreover have "pending_ok n W ?q"
    unfolding pending_ok_def
  proof (intro allI impI)
    fix j assume "j < n" "promises ?q ! j = Pending"
    with nth[of j] assms(4) p show "\<exists>v<W. workers ?q ! v = Awaiting j"
      by (cases "j = i") (auto simp: pending_ok_def)
  qed
  moreover have "rejected_ok n W ?q"
    unfolding rejected_ok_def
  proof (intro allI impI)
    fix j assume j: "j < n" "promises ?q ! j = Rejected"
    show "\<exists>w<W. workers ?q ! w = Awaiting j \<or> workers ?q ! w = Thrown"
    proof (cases "j = i")
      case True
      with v show ?thesis by auto
    next
      case False
      with j nth[of j] r show ?thesis by (auto simp: rejected_ok_def)
    qed
  qed
  moreover have "returned_ok n W ?q" using t by (simp add: returned_ok_def)
  ultimately show ?thesis by (simp add: queue_inv_def)
qed

lemma inv_settle:
  assumes "queue_inv n W q" "settle b i q = Some q'"
  shows "queue_inv n W q'"
proof -
  from assms(2) have i: "i < length (promises q)" "promises q ! i = Pending"
    and q': "q' = q\<lparr>promises := (promises q)[i := Fulfilled]\<rparr>
             \<or> q' = q\<lparr>promises := (promises q)[i := Rejected]\<rparr>"
    by (auto simp: settle_def split: if_splits behaviour.splits)
  from assms(1) i have "i < n" by (simp add: queue_inv_def sized_def)
  with assms(1) i q' show ?thesis by (auto intro: inv_settled)
qed

lemma inv_step: "queue_inv n W q \<Longrightarrow> step tasks e q = Some q' \<Longrightarrow> queue_inv n W q'"
  by (cases e) (auto intro: inv_resume inv_settle split: if_splits)

lemma inv_run: "queue_inv n W q \<Longrightarrow> run tasks es q = Some q' \<Longrightarrow> queue_inv n W q'"
  by (induction es arbitrary: q) (auto dest: inv_step split: option.splits)

lemma count_update:
  "i < length xs \<Longrightarrow>
   length (filter P (xs[i := y])) + (if P (xs ! i) then 1 else 0)
     = length (filter P xs) + (if P y then 1 else 0)"
proof (induction xs arbitrary: i)
  case Nil
  then show ?case by simp
next
  case (Cons x xs)
  then show ?case by (cases i) auto
qed

lemma in_flight_bound:
  assumes "sized n W q" "pending_ok n W q"
  shows "in_flight q \<le> W"
proof -
  define g where "g w = (case workers q ! w of Awaiting i \<Rightarrow> i | _ \<Rightarrow> 0)" for w
  have "in_flight q = card {i. i < n \<and> promises q ! i = Pending}"
    using assms(1) by (simp add: in_flight_def length_filter_conv_card sized_def)
  also have "{i. i < n \<and> promises q ! i = Pending} \<subseteq> g ` {..<W}"
  proof
    fix i assume "i \<in> {i. i < n \<and> promises q ! i = Pending}"
    with assms(2) obtain w where "w < W" "workers q ! w = Awaiting i"
      by (auto simp: pending_ok_def)
    then show "i \<in> g ` {..<W}" by (auto simp: g_def image_iff intro!: bexI[of _ w])
  qed
  then have "card {i. i < n \<and> promises q ! i = Pending} \<le> card (g ` {..<W})"
    by (intro card_mono) auto
  also have "\<dots> \<le> card {..<W}" by (rule card_image_le) simp
  finally show ?thesis by simp
qed

lemma claim_remaining:
  assumes "w < length (workers q)" "workers q ! w \<noteq> Returned" "workers q ! w \<noteq> Thrown"
  shows "remaining (claim w q) < remaining q"
proof (cases "cursor q < length (promises q)")
  case True
  from count_update[OF True, of "\<lambda>p. p = Pending" Pending]
  have "in_flight (claim w q) \<le> in_flight q + 1"
    by (simp add: in_flight_def claim_fields split: if_splits)
  moreover from count_update[OF assms(1), of "\<lambda>w. w \<noteq> Returned \<and> w \<noteq> Thrown" "Awaiting (cursor q)"] assms True
  have "active (claim w q) = active q"
    by (simp add: active_def claim_fields)
  ultimately show ?thesis using True by (simp add: remaining_def claim_fields)
next
  case False
  then have "in_flight (claim w q) = in_flight q"
    by (simp add: in_flight_def claim_fields list_update_beyond)
  moreover from count_update[OF assms(1), of "\<lambda>w. w \<noteq> Returned \<and> w \<noteq> Thrown" Returned] assms False
  have "active (claim w q) + 1 = active q"
    by (simp add: active_def claim_fields)
  ultimately show ?thesis using False by (simp add: remaining_def claim_fields)
qed

lemma resume_remaining:
  assumes "resume w q = Some q'"
  shows "remaining q' < remaining q"
proof -
  from assms have w: "w < length (workers q)" by (auto simp: resume_def split: if_splits)
  from assms w consider "q' = claim w q" "workers q ! w \<noteq> Returned" "workers q ! w \<noteq> Thrown"
    | i where "workers q ! w = Awaiting i" "q' = q\<lparr>workers := (workers q)[w := Thrown]\<rparr>"
    by (auto simp: resume_def split: if_splits worker.splits)
  then show ?thesis
  proof cases
    case 1
    with w show ?thesis by (simp add: claim_remaining)
  next
    case 2
    from count_update[OF w, of "\<lambda>w. w \<noteq> Returned \<and> w \<noteq> Thrown" Thrown] 2
    have "active q' + 1 = active q" by (simp add: active_def)
    with 2 show ?thesis by (simp add: remaining_def in_flight_def)
  qed
qed

lemma settle_remaining:
  assumes "settle b i q = Some q'"
  shows "remaining q' < remaining q"
proof -
  from assms obtain x where i: "i < length (promises q)" "promises q ! i = Pending"
    and q': "q' = q\<lparr>promises := (promises q)[i := x]\<rparr>" and x: "x \<noteq> Pending"
    by (auto simp: settle_def split: if_splits behaviour.splits)
  from count_update[OF i(1), of "\<lambda>p. p = Pending" x] i x q'
  have "in_flight q' + 1 = in_flight q" by (simp add: in_flight_def)
  with q' show ?thesis by (simp add: remaining_def active_def)
qed

lemma step_remaining: "step tasks e q = Some q' \<Longrightarrow> remaining q' < remaining q"
  by (cases e) (auto dest: resume_remaining settle_remaining split: if_splits)

lemma run_remaining: "run tasks es q = Some q' \<Longrightarrow> remaining q' + length es \<le> remaining q"
proof (induction es arbitrary: q)
  case Nil
  then show ?case by simp
next
  case (Cons e es)
  then obtain q1 where 1: "step tasks e q = Some q1" and 2: "run tasks es q1 = Some q'"
    by (auto split: option.splits)
  from Cons.IH[OF 2] step_remaining[OF 1] show ?case by simp
qed

lemma remaining_start: "remaining (runQueue n c) = 2 * n + nat (max 1 c)"
  by (simp add: remaining_def runQueue_def in_flight_def active_def)

lemma clean_start: "clean (runQueue n c)"
  by (simp add: clean_def runQueue_def)

lemma set_update_notin: "y \<noteq> a \<Longrightarrow> a \<notin> set xs \<Longrightarrow> a \<notin> set (xs[i := y])"
  using set_update_subset_insert[of xs i y] by auto

lemma clean_step:
  assumes "\<forall>b \<in> set tasks. b = Fulfils" "clean q" "step tasks e q = Some q'"
  shows "clean q'"
proof (cases e)
  case (Resume w)
  with assms(3) have r: "resume w q = Some q'" by simp
  then have w: "w < length (workers q)" by (auto simp: resume_def split: if_splits)
  from assms(2) have nr: "\<And>i. i < length (promises q) \<Longrightarrow> promises q ! i \<noteq> Rejected"
    unfolding clean_def by (metis nth_mem)
  with r w have "q' = claim w q"
    by (auto simp: resume_def split: if_splits worker.splits)
  with assms(2) show ?thesis
    using set_update_notin[of Pending Rejected "promises q" "cursor q"]
      set_update_notin[of Returned Thrown "workers q" w]
      set_update_notin[of "Awaiting (cursor q)" Thrown "workers q" w]
    by (simp add: clean_def claim_fields)
next
  case (Settle i)
  with assms(3) have i: "i < length tasks" and s: "settle (tasks ! i) i q = Some q'"
    by (auto split: if_splits)
  from i assms(1) have "tasks ! i = Fulfils" by simp
  with s have "q' = q\<lparr>promises := (promises q)[i := Fulfilled]\<rparr>"
    by (auto simp: settle_def split: if_splits)
  with assms(2) show ?thesis
    using set_update_notin[of Fulfilled Rejected "promises q" i]
    by (simp add: clean_def)
qed

lemma clean_run:
  "\<forall>b \<in> set tasks. b = Fulfils \<Longrightarrow> clean q \<Longrightarrow> run tasks es q = Some q' \<Longrightarrow> clean q'"
  by (induction es arbitrary: q) (auto dest: clean_step split: option.splits)

lemma enabled_iff: "e \<in> set (enabled tasks q) \<longleftrightarrow> step tasks e q \<noteq> None"
proof (cases e)
  case (Resume w)
  then show ?thesis by (auto simp: enabled_def resume_def)
next
  case (Settle i)
  then show ?thesis by (auto simp: enabled_def settle_def)
qed

lemma progress:
  assumes "queue_inv (length tasks) W q" "\<forall>b \<in> set tasks. b = Fulfils" "clean q"
    and "enabled tasks q = []"
  shows "joined q = Fulfilled"
proof -
  let ?n = "length tasks"
  from assms(1) have s: "sized ?n W q" and d: "called_ok ?n q" and a: "await_ok ?n W q"
    by (simp_all add: queue_inv_def)
  from assms(4) have none: "step tasks e q = None" for e
    using enabled_iff[of e tasks q] by simp
  have "wk = Returned" if "wk \<in> set (workers q)" for wk
  proof -
    from that obtain w where w: "w < length (workers q)" "workers q ! w = wk"
      by (auto simp: in_set_conv_nth)
    show ?thesis
    proof (cases wk)
      case Ready
      with w none[of "Resume w"] show ?thesis by (simp add: resume_def)
    next
      case (Awaiting i)
      with a w s have i: "i < ?n" "i < cursor q" by (auto simp: await_ok_def sized_def)
      with d have nc: "promises q ! i \<noteq> NotCalled" by (auto simp: called_ok_def)
      from i s assms(3) have nr: "promises q ! i \<noteq> Rejected"
        unfolding clean_def sized_def by (metis nth_mem)
      from i assms(2) have f: "tasks ! i = Fulfils" by simp
      from none[of "Settle i"] i f s have np: "promises q ! i \<noteq> Pending"
        by (auto simp: settle_def sized_def)
      from nc nr np have "promises q ! i = Fulfilled" by (cases "promises q ! i") auto
      with none[of "Resume w"] w Awaiting i s show ?thesis
        by (simp add: resume_def sized_def)
    next
      case Returned
      then show ?thesis .
    next
      case Thrown
      with that assms(3) show ?thesis by (simp add: clean_def)
    qed
  qed
  moreover from assms(3) have "Thrown \<notin> set (workers q)" by (simp add: clean_def)
  ultimately show ?thesis by (simp add: joined_def)
qed

lemma completion:
  assumes "queue_inv n W q" "0 < W" "joined q = Fulfilled"
  shows "map snd (claims q) = [0..<n] \<and> (\<forall>p \<in> set (promises q). p = Fulfilled)"
proof -
  from assms(1) have s: "sized n W q" and c: "claims_ok n W q" and d: "called_ok n q"
    and p: "pending_ok n W q" and r: "rejected_ok n W q" and t: "returned_ok n W q"
    by (simp_all add: queue_inv_def)
  from assms(3) have all: "\<And>w. w < W \<Longrightarrow> workers q ! w = Returned"
    using s by (auto simp: joined_def sized_def split: if_splits)
  from all[OF assms(2)] t assms(2) have cur: "n \<le> cursor q" by (auto simp: returned_ok_def)
  with c have "map snd (claims q) = [0..<n]" by (simp add: claims_ok_def min_def)
  moreover have "x = Fulfilled" if "x \<in> set (promises q)" for x
  proof -
    from that s obtain i where i: "i < n" "promises q ! i = x"
      by (auto simp: in_set_conv_nth sized_def)
    with d cur have "x \<noteq> NotCalled" by (auto simp: called_ok_def)
    moreover from p i all have "x \<noteq> Pending" by (auto simp: pending_ok_def)
    moreover from r i all have "x \<noteq> Rejected" by (auto simp: rejected_ok_def)
    ultimately show ?thesis by (cases x) auto
  qed
  ultimately show ?thesis by blast
qed


lemma one_by_one_start: "c \<le> 0 \<Longrightarrow> one_by_one (runQueue n c)"
  by (simp add: one_by_one_def runQueue_def)

lemma one_by_one_claim:
  assumes "one_by_one q" "can_claim 0 q"
  shows "one_by_one (claim 0 q)"
proof -
  from assms(1) have l: "length (workers q) = 1"
    and r: "workers q ! 0 = Ready \<Longrightarrow> cursor q = 0"
    and a: "\<And>i. workers q ! 0 = Awaiting i \<Longrightarrow> cursor q = Suc i"
    and f: "\<And>i. i < length (promises q) \<Longrightarrow> Suc i < cursor q \<Longrightarrow> promises q ! i = Fulfilled"
    by (auto simp: one_by_one_def)
  have "promises (claim 0 q) ! i = Fulfilled"
    if i: "i < length (promises (claim 0 q))" "Suc i < cursor (claim 0 q)" for i
  proof -
    from i have il: "i < length (promises q)" and ic: "i < cursor q" by (simp_all add: claim_fields)
    then have same: "promises (claim 0 q) ! i = promises q ! i" by (simp add: claim_promise_nth)
    show ?thesis
    proof (cases "Suc i < cursor q")
      case True
      with f il same show ?thesis by simp
    next
      case False
      with ic have c: "cursor q = Suc i" by simp
      with assms(2) r a have "promises q ! i = Fulfilled" by (auto simp: can_claim_def)
      with same show ?thesis by simp
    qed
  qed
  moreover from l have "length (workers (claim 0 q)) = 1" by (simp add: claim_fields)
  moreover from l have "workers (claim 0 q) ! 0 \<noteq> Ready" by (simp add: claim_fields)
  moreover from l have "workers (claim 0 q) ! 0 = Awaiting i \<Longrightarrow> cursor (claim 0 q) = Suc i" for i
    by (auto simp: claim_fields split: if_splits)
  ultimately show ?thesis unfolding one_by_one_def by blast
qed

lemma one_by_one_step:
  assumes "one_by_one q" "step tasks e q = Some q'"
  shows "one_by_one q'"
proof (cases e)
  case (Resume w)
  with assms(2) have r: "resume w q = Some q'" by simp
  with assms(1) have w: "w = 0" by (auto simp: resume_def one_by_one_def split: if_splits)
  from r w consider "q' = claim 0 q" "can_claim 0 q"
    | "q' = q\<lparr>workers := (workers q)[0 := Thrown]\<rparr>"
    by (auto simp: resume_def can_claim_def split: if_splits worker.splits)
  then show ?thesis
  proof cases
    case 1
    with assms(1) show ?thesis by (simp add: one_by_one_claim)
  next
    case 2
    with assms(1) show ?thesis by (auto simp: one_by_one_def)
  qed
next
  case (Settle i)
  with assms(2) obtain x where i: "i < length (promises q)" "promises q ! i = Pending"
    and q': "q' = q\<lparr>promises := (promises q)[i := x]\<rparr>"
    by (auto simp: settle_def split: if_splits behaviour.splits)
  have "promises q' ! j = Fulfilled" if "j < length (promises q')" "Suc j < cursor q'" for j
  proof -
    from that q' assms(1) have "promises q ! j = Fulfilled" by (auto simp: one_by_one_def)
    with i have "j \<noteq> i" by auto
    with q' \<open>promises q ! j = Fulfilled\<close> show ?thesis by simp
  qed
  with assms(1) q' show ?thesis unfolding one_by_one_def by simp
qed

lemma one_by_one_run: "one_by_one q \<Longrightarrow> run tasks es q = Some q' \<Longrightarrow> one_by_one q'"
  by (induction es arbitrary: q) (auto dest: one_by_one_step split: option.splits)

lemma one_by_one_order:
  assumes "one_by_one q" "called_ok n q" "length (promises q) = n"
    and "i < j" "j < n" "promises q ! j \<noteq> NotCalled"
  shows "promises q ! i = Fulfilled"
proof -
  from assms(2,5,6) have "j < cursor q" by (auto simp: called_ok_def)
  with assms(4) have "Suc i < cursor q" by simp
  with assms(1,3,4,5) show ?thesis by (auto simp: one_by_one_def)
qed

lemma single_worker_claims:
  assumes "claims_ok n 1 q" "n \<le> cursor q"
  shows "claims q = map (\<lambda>i. (0, i)) [0..<n]"
proof -
  from assms have s: "map snd (claims q) = [0..<n]" and f: "\<forall>c \<in> set (claims q). fst c = 0"
    by (auto simp: claims_ok_def min_def)
  have "claims q = map (\<lambda>c. (0, snd c)) (claims q)"
    using f by (induction "claims q") (auto simp: map_idI prod_eq_iff)
  also have "\<dots> = map (\<lambda>i. (0, i)) (map snd (claims q))" by (simp add: comp_def)
  finally show ?thesis using s by simp
qed




text \<open>
  Claim C3. For every list of tasks and every ceiling \<open>c\<close>, in every state that any
  schedule reaches, the number of tasks that have been called and have not settled is at
  most \<open>max 1 c\<close>, the number of workers; for \<open>c \<ge> 1\<close> it is at most \<open>c\<close>.
\<close>

theorem runQueue_never_exceeds_ceiling:
  assumes "run tasks es (runQueue (length tasks) c) = Some q"
  shows "in_flight q \<le> nat (max 1 c) \<and> (1 \<le> c \<longrightarrow> int (in_flight q) \<le> c)"
proof -
  from inv_run[OF inv_start assms] have "in_flight q \<le> nat (max 1 c)"
    by (auto simp: queue_inv_def intro: in_flight_bound)
  then show ?thesis by auto
qed

text \<open>Eight tasks, ceiling \<open>MAX_PARALLEL\<close>: once the three workers have started,
  three tasks are in flight.\<close>

theorem runQueue_never_exceeds_ceiling_witness:
  "1 \<le> MAX_PARALLEL
   \<and> run eight_tasks first_three (runQueue (length eight_tasks) MAX_PARALLEL) =
       Some \<lparr>cursor = 3, workers = [Awaiting 0, Awaiting 1, Awaiting 2],
             promises = [Pending, Pending, Pending, NotCalled, NotCalled, NotCalled,
                         NotCalled, NotCalled],
             claims = [(0, 0), (1, 1), (2, 2)]\<rparr>
   \<and> int (in_flight \<lparr>cursor = 3, workers = [Awaiting 0, Awaiting 1, Awaiting 2],
             promises = [Pending, Pending, Pending, NotCalled, NotCalled, NotCalled,
                         NotCalled, NotCalled],
             claims = [(0, 0), (1, 1), (2, 2)]\<rparr>) \<le> MAX_PARALLEL"
proof -
  have len: "length eight_tasks = 8" by (simp add: eight_tasks_def)
  have "run eight_tasks first_three (runQueue 8 MAX_PARALLEL) =
       Some \<lparr>cursor = 3, workers = [Awaiting 0, Awaiting 1, Awaiting 2],
             promises = [Pending, Pending, Pending, NotCalled, NotCalled, NotCalled,
                         NotCalled, NotCalled],
             claims = [(0, 0), (1, 1), (2, 2)]\<rparr>"
    by code_simp
  then have r: "run eight_tasks first_three (runQueue (length eight_tasks) MAX_PARALLEL) =
       Some \<lparr>cursor = 3, workers = [Awaiting 0, Awaiting 1, Awaiting 2],
             promises = [Pending, Pending, Pending, NotCalled, NotCalled, NotCalled,
                         NotCalled, NotCalled],
             claims = [(0, 0), (1, 1), (2, 2)]\<rparr>"
    by (simp only: len)
  have m: "1 \<le> MAX_PARALLEL" by (simp add: MAX_PARALLEL_def)
  from runQueue_never_exceeds_ceiling[OF r] m r show ?thesis by simp
qed

text \<open>
  Claim C10, as amended. With a ceiling of 0 or below, \<open>runQueue\<close> still starts exactly
  one worker. In every state that any schedule reaches, at most one task is in flight and
  a task has been called only when all tasks before it have fulfilled. When every task
  fulfils, a schedule has at most \<open>2 * length + 1\<close> steps, and a state where no step is
  possible is one where the returned promise is fulfilled, the single worker has claimed
  the tasks 0 to length - 1 in this order, once each, and every task has completed.
\<close>

theorem runQueue_nonpositive_ceiling:
  assumes "c \<le> 0" and "run tasks es (runQueue (length tasks) c) = Some q"
  shows "length (workers (runQueue (length tasks) c)) = 1 \<and> length (workers q) = 1
    \<and> in_flight q \<le> 1
    \<and> (\<forall>i j. i < j \<and> j < length tasks \<and> promises q ! j \<noteq> NotCalled \<longrightarrow> promises q ! i = Fulfilled)
    \<and> ((\<forall>b \<in> set tasks. b = Fulfils) \<longrightarrow>
          length es \<le> 2 * length tasks + 1
          \<and> (enabled tasks q = [] \<longrightarrow>
                joined q = Fulfilled \<and> claims q = map (\<lambda>i. (0, i)) [0..<length tasks]
                \<and> (\<forall>p \<in> set (promises q). p = Fulfilled)))"
proof -
  let ?n = "length tasks"
  from assms(1) have W: "nat (max 1 c) = 1" by simp
  have inv: "queue_inv ?n 1 q" using inv_run[OF inv_start assms(2)] W by simp
  then have s: "sized ?n 1 q" and c: "claims_ok ?n 1 q" and d: "called_ok ?n q"
    and p: "pending_ok ?n 1 q" and t: "returned_ok ?n 1 q"
    by (simp_all add: queue_inv_def)
  have seq: "one_by_one q" using one_by_one_run[OF one_by_one_start[OF assms(1)] assms(2)] .
  have "length (workers (runQueue ?n c)) = 1" using W by (simp add: runQueue_def)
  moreover have "length (workers q) = 1" using s by (simp add: sized_def)
  moreover have "in_flight q \<le> 1" using in_flight_bound[OF s p] .
  moreover have "promises q ! i = Fulfilled"
    if "i < j \<and> j < ?n \<and> promises q ! j \<noteq> NotCalled" for i j
    using one_by_one_order[OF seq d, of i j] s that by (simp add: sized_def)
  moreover have "length es \<le> 2 * ?n + 1
      \<and> (enabled tasks q = [] \<longrightarrow>
            joined q = Fulfilled \<and> claims q = map (\<lambda>i. (0, i)) [0..<?n]
            \<and> (\<forall>p \<in> set (promises q). p = Fulfilled))"
    if f: "\<forall>b \<in> set tasks. b = Fulfils"
  proof -
    from run_remaining[OF assms(2)] W have "length es \<le> 2 * ?n + 1"
      by (simp add: remaining_start)
    moreover have "joined q = Fulfilled \<and> claims q = map (\<lambda>i. (0, i)) [0..<?n]
        \<and> (\<forall>p \<in> set (promises q). p = Fulfilled)" if e: "enabled tasks q = []"
    proof -
      have j: "joined q = Fulfilled"
        using progress[OF inv f clean_run[OF f clean_start assms(2)] e] .
      from j s have "workers q ! 0 = Returned"
        by (cases "workers q") (auto simp: joined_def sized_def split: if_splits)
      with t have "?n \<le> cursor q" by (simp add: returned_ok_def)
      from single_worker_claims[OF c this] completion[OF inv _ j] j show ?thesis by simp
    qed
    ultimately show ?thesis by blast
  qed
  ultimately show ?thesis by blast
qed

theorem runQueue_nonpositive_ceiling_witness:
  "(0::int) \<le> 0
   \<and> length (workers (runQueue (length two_tasks) 0)) = 1
   \<and> run two_tasks in_turn (runQueue (length two_tasks) 0) =
       Some \<lparr>cursor = 3, workers = [Returned], promises = [Fulfilled, Fulfilled],
             claims = [(0, 0), (0, 1)]\<rparr>
   \<and> enabled two_tasks \<lparr>cursor = 3, workers = [Returned], promises = [Fulfilled, Fulfilled],
             claims = [(0, 0), (0, 1)]\<rparr> = []
   \<and> joined \<lparr>cursor = 3, workers = [Returned], promises = [Fulfilled, Fulfilled],
             claims = [(0, 0), (0, 1)]\<rparr> = Fulfilled"
proof -
  have len: "length two_tasks = 2" by (simp add: two_tasks_def)
  have "run two_tasks in_turn (runQueue 2 0) =
       Some \<lparr>cursor = 3, workers = [Returned], promises = [Fulfilled, Fulfilled],
             claims = [(0, 0), (0, 1)]\<rparr>"
    by code_simp
  then have r: "run two_tasks in_turn (runQueue (length two_tasks) 0) =
       Some \<lparr>cursor = 3, workers = [Returned], promises = [Fulfilled, Fulfilled],
             claims = [(0, 0), (0, 1)]\<rparr>"
    by (simp only: len)
  have e: "enabled two_tasks \<lparr>cursor = 3, workers = [Returned],
             promises = [Fulfilled, Fulfilled], claims = [(0, 0), (0, 1)]\<rparr> = []"
    by code_simp
  have f: "\<forall>b \<in> set two_tasks. b = Fulfils" by (simp add: two_tasks_def)
  have z: "(0::int) \<le> 0" by simp
  note t = runQueue_nonpositive_ceiling[OF z r]
  from t have w: "length (workers (runQueue (length two_tasks) 0)) = 1" by blast
  from t f e have j: "joined \<lparr>cursor = 3, workers = [Returned],
             promises = [Fulfilled, Fulfilled], claims = [(0, 0), (0, 1)]\<rparr> = Fulfilled"
    by blast
  from z w r e j show ?thesis by blast
qed

text \<open>
  The claim as stated, for every task list, does not hold: with ceiling 0 and a first task
  that rejects, the single worker ends on the rejection and the second task is never
  called.
\<close>

theorem runQueue_nonpositive_rejecting_counterexample:
  "length (workers (runQueue (length failing_tasks) 0)) = 1
   \<and> run failing_tasks first_fails (runQueue (length failing_tasks) 0) =
       Some \<lparr>cursor = 1, workers = [Thrown], promises = [Rejected, NotCalled],
             claims = [(0, 0)]\<rparr>
   \<and> enabled failing_tasks \<lparr>cursor = 1, workers = [Thrown], promises = [Rejected, NotCalled],
             claims = [(0, 0)]\<rparr> = []"
proof -
  have len: "length failing_tasks = 2" by (simp add: failing_tasks_def)
  have "length (workers (runQueue 2 0)) = 1" by (simp add: runQueue_def)
  moreover have "run failing_tasks first_fails (runQueue 2 0) =
       Some \<lparr>cursor = 1, workers = [Thrown], promises = [Rejected, NotCalled],
             claims = [(0, 0)]\<rparr>"
    by code_simp
  moreover have "enabled failing_tasks \<lparr>cursor = 1, workers = [Thrown],
             promises = [Rejected, NotCalled], claims = [(0, 0)]\<rparr> = []"
    by code_simp
  ultimately show ?thesis by (simp only: len simp_thms)
qed

section \<open>Properties of the render orchestrator\<close>

subsection \<open>Starting a run\<close>

lemma queued_results_length: "length (queued_results ids vs) = length vs"
  by (simp add: queued_results_def)

lemma queued_results_nth:
  "k < length vs \<Longrightarrow> queued_results ids vs ! k =
     \<lparr>azimuth = azimuth (vs ! k), elevation = elevation (vs ! k), distance = distance (vs ! k),
      id = ids k, status = Queued, image = None, seed = None, error = None\<rparr>"
  by (simp add: queued_results_def nth_enumerate_eq)

lemma queued_results_azimuth: "map azimuth (queued_results ids vs) = map azimuth vs"
  by (simp add: list_eq_iff_nth_eq queued_results_length queued_results_nth)

lemma queued_results_fresh:
  assumes "item \<in> set (queued_results ids vs)"
  shows "status item = Queued \<and> image item = None \<and> error item = None"
proof -
  from assms obtain k where "k < length vs" "item = queued_results ids vs ! k"
    by (auto simp: in_set_conv_nth queued_results_length)
  then show ?thesis by (simp add: queued_results_nth)
qed

lemma buildViews_azimuth: "map azimuth (buildViews el di) = ANGLE_PRESETS"
  by (simp add: buildViews_def comp_def)

text \<open>
  Claim C9. A call of \<^verbatim>\<open>startBatch\<close> that starts a run (its payload is not empty)
  sets the result list to one record per azimuth preset, in the order of the preset list,
  each queued, without image and without error, and makes the epoch one more than it was.
  At that point no task of the new run has been dispatched: the new batch is the last one,
  it has captured the new epoch, all its tasks are idle, no index has been claimed, no
  promise exists yet, and nothing has been sent.
\<close>

theorem startBatch_resets_results:
  assumes "payload' \<noteq> []"
  shows "length (results (state (startBatch payload' env w))) = length ANGLE_PRESETS
     \<and> map azimuth (results (state (startBatch payload' env w))) = ANGLE_PRESETS
     \<and> (\<forall>item \<in> set (results (state (startBatch payload' env w))).
           status item = Queued \<and> image item = None \<and> error item = None)
     \<and> runIdRef (state (startBatch payload' env w)) = runIdRef (state w) + 1
     \<and> butlast (batches (startBatch payload' env w)) = batches w
     \<and> runId (last (batches (startBatch payload' env w))) = runIdRef (state w) + 1
     \<and> pcs (last (batches (startBatch payload' env w))) = replicate (length ANGLE_PRESETS) Idle
     \<and> claims (pool (last (batches (startBatch payload' env w)))) = []
     \<and> promises (pool (last (batches (startBatch payload' env w))))
         = replicate (length ANGLE_PRESETS) NotCalled
     \<and> trace (startBatch payload' env w) = trace w"
proof -
  let ?vs = "buildViews (elevation_now env) (distance_now env)"
  have l: "length ?vs = length ANGLE_PRESETS" by (simp add: buildViews_def)
  have r: "results (state (startBatch payload' env w)) = queued_results (makeId env) ?vs"
    using assms by (simp add: startBatch_def Let_def)
  have "\<forall>item \<in> set (results (state (startBatch payload' env w))).
           status item = Queued \<and> image item = None \<and> error item = None"
    unfolding r using queued_results_fresh by blast
  moreover have "length (results (state (startBatch payload' env w))) = length ANGLE_PRESETS"
    unfolding r by (simp add: queued_results_length l)
  moreover have "map azimuth (results (state (startBatch payload' env w))) = ANGLE_PRESETS"
    unfolding r by (simp add: queued_results_azimuth buildViews_azimuth)
  moreover have "runIdRef (state (startBatch payload' env w)) = runIdRef (state w) + 1"
    "butlast (batches (startBatch payload' env w)) = batches w"
    "runId (last (batches (startBatch payload' env w))) = runIdRef (state w) + 1"
    "pcs (last (batches (startBatch payload' env w))) = replicate (length ANGLE_PRESETS) Idle"
    "claims (pool (last (batches (startBatch payload' env w)))) = []"
    "promises (pool (last (batches (startBatch payload' env w))))
         = replicate (length ANGLE_PRESETS) NotCalled"
    "trace (startBatch payload' env w) = trace w"
    using assms l by (simp_all add: startBatch_def Let_def runQueue_def)
  ultimately show ?thesis by blast
qed

theorem startBatch_resets_results_witness:
  "''AAAA'' \<noteq> []
   \<and> map azimuth (results (state (startBatch ''AAAA'' first_launch mounted)))
       = [0, 45, 90, 135, 180, 225, 270, 315]
   \<and> map status (results (state (startBatch ''AAAA'' first_launch mounted)))
       = [Queued, Queued, Queued, Queued, Queued, Queued, Queued, Queued]
   \<and> runIdRef (state (startBatch ''AAAA'' first_launch mounted)) = 1"
proof -
  have n: "''AAAA'' \<noteq> []" by simp
  note t = startBatch_resets_results[OF n, of first_launch mounted]
  from t have a: "map azimuth (results (state (startBatch ''AAAA'' first_launch mounted)))
       = [0, 45, 90, 135, 180, 225, 270, 315]"
    by (simp add: ANGLE_PRESETS_eq)
  from t have r: "runIdRef (state (startBatch ''AAAA'' first_launch mounted)) = 1"
    by (simp add: mounted_def)
  have s: "map status (results (state (startBatch ''AAAA'' first_launch mounted)))
       = [Queued, Queued, Queued, Queued, Queued, Queued, Queued, Queued]"
    by code_simp
  from n a r s show ?thesis by blast
qed

subsection \<open>A continuation that finds another epoch changes nothing\<close>

lemma snap_some: "options \<noteq> [] \<Longrightarrow> \<exists>r. snapToNearest v options = Some r"
  by (cases options) (simp_all add: snapToNearest_def)

lemma buildAnglePrompt_total: "buildAnglePrompt az el di extraPrompt \<noteq> None"
proof -
  obtain a where a: "snapToNearest az ANGLE_PRESETS = Some a"
    using snap_some[of ANGLE_PRESETS az] by (auto simp: ANGLE_PRESETS_eq)
  obtain e where e: "snapToNearest el ELEVATION_PRESETS = Some e"
    using snap_some[of ELEVATION_PRESETS el] by (auto simp: ELEVATION_PRESETS_eq)
  obtain d where d: "snapToNearest di DISTANCE_PRESETS = Some d"
    using snap_some[of DISTANCE_PRESETS di] by (auto simp: DISTANCE_PRESETS_eq)
  show ?thesis by (simp add: buildAnglePrompt_def a e d Let_def)
qed

lemma catch_error_stale: "runIdRef s \<noteq> runId b \<Longrightarrow> catch_error b i e s = s"
  by (simp add: catch_error_def)

lemma poll_returned_stale: "runIdRef s \<noteq> runId b \<Longrightarrow> poll_returned b i polled s = s"
  by (simp add: poll_returned_def)

lemma poll_iteration_stale: "runIdRef s \<noteq> runId b \<Longrightarrow> fst (poll_iteration b i jobId n s) = s"
  by (simp add: poll_iteration_def catch_error_stale poll_returned_stale)

lemma task_called_stale: "runIdRef s \<noteq> runId b \<Longrightarrow> fst (task_called b i s) = s"
  by (simp add: task_called_def)

lemma submit_settled_stale: "runIdRef s \<noteq> runId b \<Longrightarrow> fst (submit_settled b i res s) = s"
  by (simp add: submit_settled_def catch_error_stale split: sum.splits)

lemma poll_settled_stale: "runIdRef s \<noteq> runId b \<Longrightarrow> fst (poll_settled b i jobId n res s) = s"
  by (simp add: poll_settled_def catch_error_stale poll_returned_stale split: attempt.splits)

lemma timer_fired_stale: "runIdRef s \<noteq> runId b \<Longrightarrow> fst (timer_fired b i jobId n s) = s"
  by (simp add: timer_fired_def poll_iteration_stale)

lemma batch_joined_stale:
  "runIdRef s \<noteq> runId b \<Longrightarrow> joined (pool b) \<noteq> Rejected \<Longrightarrow> batch_joined b s = Some s' \<Longrightarrow> s' = s"
  by (auto simp: batch_joined_def finally_block_def split: promise.splits)

lemma advance_state: "state (advance r i b out w) = fst out"
  by (cases out) (simp add: advance_def)

lemma perform_stale:
  assumes "batch_of a = Some r" "perform a w = Some w'"
    and "runIdRef (state w) \<noteq> runId (batches w ! r)"
    and "joined (pool (batches w ! r)) \<noteq> Rejected"
  shows "state w' = state w"
proof (cases a)
  case (Start p env)
  with assms(1) show ?thesis by simp
next
  case (Work r' k)
  with assms show ?thesis
    by (auto simp: Let_def advance_state task_called_stale split: if_splits option.splits)
next
  case (SubmitDone r' i res)
  with assms show ?thesis
    by (auto simp: Let_def advance_state submit_settled_stale split: if_splits pc.splits)
next
  case (PollDone r' i res)
  with assms show ?thesis
    by (auto simp: Let_def advance_state poll_settled_stale split: if_splits pc.splits)
next
  case (TimerDone r' i)
  with assms show ?thesis
    by (auto simp: Let_def advance_state timer_fired_stale split: if_splits pc.splits)
next
  case (Join r')
  with assms show ?thesis
    by (auto simp: Let_def dest: batch_joined_stale split: if_splits option.splits)
qed

subsection \<open>The epoch only grows, and no task is rejected\<close>

lemma catch_error_epoch: "runIdRef (catch_error b i e s) = runIdRef s"
  by (cases e) (simp add: catch_error_def)

lemma poll_returned_epoch: "runIdRef (poll_returned b i polled s) = runIdRef s"
  by (simp add: poll_returned_def applyImageAt_def split: poll_result.splits)

lemma poll_iteration_epoch: "runIdRef (fst (poll_iteration b i jobId n s)) = runIdRef s"
  by (simp add: poll_iteration_def catch_error_epoch poll_returned_epoch)

lemma task_called_epoch: "runIdRef (fst (task_called b i s)) = runIdRef s"
  by (simp add: task_called_def Let_def catch_error_epoch split: option.splits sum.splits)

lemma submit_settled_epoch: "runIdRef (fst (submit_settled b i res s)) = runIdRef s"
  by (simp add: submit_settled_def catch_error_epoch poll_iteration_epoch applyImageAt_def
      split: sum.splits submitted.splits)

lemma poll_settled_epoch: "runIdRef (fst (poll_settled b i jobId n res s)) = runIdRef s"
  by (simp add: poll_settled_def catch_error_epoch poll_returned_epoch split: attempt.splits)

lemma timer_fired_epoch: "runIdRef (fst (timer_fired b i jobId n s)) = runIdRef s"
  by (simp add: timer_fired_def poll_iteration_epoch)

lemma batch_joined_epoch: "batch_joined b s = Some s' \<Longrightarrow> runIdRef s' = runIdRef s"
  by (auto simp: batch_joined_def finally_block_def split: promise.splits option.splits js_error.splits)

lemma poll_iteration_no_crash: "fst (snd (poll_iteration b i jobId n s)) \<noteq> Crashes e"
  by (simp add: poll_iteration_def)

lemma task_called_no_crash: "fst (snd (task_called b i s)) \<noteq> Crashes e"
  using buildAnglePrompt_total[of "azimuth (views b ! i)" "elevation (views b ! i)"
      "distance (views b ! i)" "extra b"]
  by (auto simp: task_called_def Let_def split: option.splits sum.splits)

lemma submit_settled_no_crash: "fst (snd (submit_settled b i res s)) \<noteq> Crashes e"
  by (simp add: submit_settled_def poll_iteration_no_crash split: sum.splits submitted.splits)

lemma poll_settled_no_crash: "fst (snd (poll_settled b i jobId n res s)) \<noteq> Crashes e"
  by (simp add: poll_settled_def split: attempt.splits)

lemma timer_fired_no_crash: "fst (snd (timer_fired b i jobId n s)) \<noteq> Crashes e"
  by (simp add: timer_fired_def poll_iteration_no_crash)

lemma task_ended_runId: "runId (task_ended i p b) = runId b"
  by (simp add: task_ended_def split: progress.splits)

lemma task_ended_clean:
  assumes "clean (pool b)" "\<And>e. p \<noteq> Crashes e"
  shows "clean (pool (task_ended i p b))"
proof (cases p)
  case (Suspends after)
  with assms show ?thesis by (simp add: task_ended_def)
next
  case Finishes
  with assms(1) show ?thesis
    using set_update_notin[of Fulfilled Rejected "promises (pool b)" i]
    by (simp add: task_ended_def clean_def)
next
  case (Crashes e)
  with assms(2)[of e] show ?thesis by simp
qed

lemma clean_resume:
  assumes "clean q" "resume k q = Some q'"
  shows "clean q'"
proof -
  from assms(2) have k: "k < length (workers q)" by (auto simp: resume_def split: if_splits)
  from assms(1) have "\<And>i. i < length (promises q) \<Longrightarrow> promises q ! i \<noteq> Rejected"
    unfolding clean_def by (metis nth_mem)
  with assms(2) k have "q' = claim k q"
    by (auto simp: resume_def split: if_splits worker.splits)
  with assms(1) show ?thesis
    using set_update_notin[of Pending Rejected "promises q" "cursor q"]
      set_update_notin[of Returned Thrown "workers q" k]
      set_update_notin[of "Awaiting (cursor q)" Thrown "workers q" k]
    by (simp add: clean_def claim_fields)
qed

lemma epochs_update:
  assumes "epochs_ok w" "r < length (batches w)" "runId b' = runId (batches w ! r)" "runIdRef s = runIdRef (state w)"
  shows "epochs_ok (w\<lparr>state := s, batches := (batches w)[r := b']\<rparr>)"
  using assms by (auto simp: epochs_ok_def nth_list_update)

lemma clean_update:
  assumes "pools_clean w" "clean (pool b')"
  shows "pools_clean (w\<lparr>state := s, batches := (batches w)[r := b']\<rparr>)"
  using assms set_update_subset_insert[of "batches w" r b'] by (auto simp: pools_clean_def)

lemma advance_ok:
  assumes "epochs_ok w" "pools_clean w" "r < length (batches w)"
    and "runId b = runId (batches w ! r)" "clean (pool b)"
    and "runIdRef (fst out) = runIdRef (state w)" "\<And>e. fst (snd out) \<noteq> Crashes e"
  shows "epochs_ok (advance r i b out w) \<and> pools_clean (advance r i b out w)"
proof -
  obtain s p fx where out: "out = (s, p, fx)" by (cases out) auto
  have a: "advance r i b out w = (w\<lparr>state := s, batches := (batches w)[r := task_ended i p b]\<rparr>)\<lparr>trace := trace w @ fx\<rparr>"
    by (simp add: advance_def out)
  from assms out have "epochs_ok (w\<lparr>state := s, batches := (batches w)[r := task_ended i p b]\<rparr>)"
    by (intro epochs_update) (simp_all add: task_ended_runId)
  moreover from assms out have "pools_clean (w\<lparr>state := s, batches := (batches w)[r := task_ended i p b]\<rparr>)"
    by (intro clean_update task_ended_clean) simp_all
  ultimately show ?thesis unfolding a by (simp add: epochs_ok_def pools_clean_def)
qed

lemma startBatch_ok:
  assumes "epochs_ok w" "pools_clean w"
  shows "epochs_ok (startBatch p env w) \<and> pools_clean (startBatch p env w)"
  using assms clean_start
  by (auto simp: startBatch_def Let_def epochs_ok_def pools_clean_def nth_append)

lemma perform_ok:
  assumes "epochs_ok w" "pools_clean w" "perform a w = Some w'"
  shows "epochs_ok w' \<and> pools_clean w'"
proof (cases a)
  case (Start p env)
  with assms show ?thesis using startBatch_ok by auto
next
  case (Work r k)
  with assms(3) have r: "r < length (batches w)" by (simp split: if_splits)
  let ?b = "batches w ! r"
  from r assms(2) have cb: "clean (pool ?b)" by (auto simp: pools_clean_def)
  from Work assms(3) r obtain q where q: "resume k (pool ?b) = Some q"
    by (auto simp: Let_def split: option.splits)
  have cq: "clean q" using clean_resume[OF cb q] .
  show ?thesis
  proof (cases "length (claims (pool ?b)) < length (claims q)")
    case True
    with Work assms(3) r q have w': "w' = advance r (cursor (pool ?b)) (?b\<lparr>pool := q\<rparr>)
                            (task_called ?b (cursor (pool ?b)) (state w)) w"
      by (simp add: Let_def)
    show ?thesis unfolding w'
      using assms(1,2) r cq by (intro advance_ok) (simp_all add: task_called_epoch task_called_no_crash)
  next
    case False
    with Work assms(3) r q obtain f where w': "w' = w\<lparr>batches := (batches w)[r := ?b\<lparr>pool := q, failure := f\<rparr>]\<rparr>"
      by (auto simp: Let_def)
    have "epochs_ok (w\<lparr>state := state w, batches := (batches w)[r := ?b\<lparr>pool := q, failure := f\<rparr>]\<rparr>)"
      using assms(1) r by (intro epochs_update) simp_all
    moreover have "pools_clean (w\<lparr>state := state w, batches := (batches w)[r := ?b\<lparr>pool := q, failure := f\<rparr>]\<rparr>)"
      using assms(2) cq by (intro clean_update) simp_all
    ultimately show ?thesis unfolding w' by simp
  qed
next
  case (SubmitDone r i res)
  with assms(3) have r: "r < length (batches w)" by (simp split: if_splits)
  let ?b = "batches w ! r"
  from r assms(2) have cb: "clean (pool ?b)" by (auto simp: pools_clean_def)
  from SubmitDone assms(3) r have w': "w' = advance r i ?b (submit_settled ?b i res (state w)) w"
    by (auto simp: Let_def split: if_splits pc.splits)
  show ?thesis unfolding w'
    using assms(1,2) r cb by (intro advance_ok) (simp_all add: submit_settled_epoch submit_settled_no_crash)
next
  case (PollDone r i res)
  with assms(3) have r: "r < length (batches w)" by (simp split: if_splits)
  let ?b = "batches w ! r"
  from r assms(2) have cb: "clean (pool ?b)" by (auto simp: pools_clean_def)
  from PollDone assms(3) r obtain jobId n where w': "w' = advance r i ?b (poll_settled ?b i jobId n res (state w)) w"
    by (auto simp: Let_def split: if_splits pc.splits)
  show ?thesis unfolding w'
    using assms(1,2) r cb by (intro advance_ok) (simp_all add: poll_settled_epoch poll_settled_no_crash)
next
  case (TimerDone r i)
  with assms(3) have r: "r < length (batches w)" by (simp split: if_splits)
  let ?b = "batches w ! r"
  from r assms(2) have cb: "clean (pool ?b)" by (auto simp: pools_clean_def)
  from TimerDone assms(3) r obtain jobId n where w': "w' = advance r i ?b (timer_fired ?b i jobId n (state w)) w"
    by (auto simp: Let_def split: if_splits pc.splits)
  show ?thesis unfolding w'
    using assms(1,2) r cb by (intro advance_ok) (simp_all add: timer_fired_epoch timer_fired_no_crash)
next
  case (Join r)
  with assms(3) have r: "r < length (batches w)" by (simp split: if_splits)
  let ?b = "batches w ! r"
  from r assms(2) have cb: "clean (pool ?b)" by (auto simp: pools_clean_def)
  from Join assms(3) r obtain s where s: "batch_joined ?b (state w) = Some s"
    and w': "w' = w\<lparr>state := s, batches := (batches w)[r := ?b\<lparr>settled := True\<rparr>]\<rparr>"
    by (auto simp: Let_def split: if_splits option.splits)
  have "epochs_ok (w\<lparr>state := s, batches := (batches w)[r := ?b\<lparr>settled := True\<rparr>]\<rparr>)"
    using assms(1) r batch_joined_epoch[OF s] by (intro epochs_update) simp_all
  moreover have "pools_clean (w\<lparr>state := s, batches := (batches w)[r := ?b\<lparr>settled := True\<rparr>]\<rparr>)"
    using assms(2) cb by (intro clean_update) simp_all
  ultimately show ?thesis unfolding w' by simp
qed

lemma execute_ok:
  "epochs_ok w \<Longrightarrow> pools_clean w \<Longrightarrow> execute acts w = Some w' \<Longrightarrow> epochs_ok w' \<and> pools_clean w'"
proof (induction acts arbitrary: w)
  case Nil
  then show ?case by simp
next
  case (Cons a acts)
  from Cons.prems(3) obtain w1 where 1: "perform a w = Some w1" and 2: "execute acts w1 = Some w'"
    by (auto split: option.splits)
  from perform_ok[OF Cons.prems(1,2) 1] Cons.IH[OF _ _ 2] show ?case by blast
qed

lemma mounted_ok: "epochs_ok mounted \<and> pools_clean mounted"
  by (simp add: mounted_def epochs_ok_def pools_clean_def)

lemma clean_not_rejected: "clean q \<Longrightarrow> joined q \<noteq> Rejected"
  by (simp add: clean_def joined_def)

text \<open>
  Claim C1. In every state that the component reaches from its mounted state, by any
  interleaving of calls of \<^verbatim>\<open>startBatch\<close> and of continuations, a batch after which
  another batch has been started holds an epoch different from the current one, and every
  continuation of such a batch (a worker resuming, a submission or a status request
  settling, a delay ending, the join of its \<^verbatim>\<open>runQueue\<close>) leaves the shared state as it
  is: epoch, result list, selection, status message and running flag.
\<close>

theorem epoch_supersession:
  assumes "execute acts mounted = Some w"
    and "Suc r < length (batches w)"
    and "batch_of a = Some r"
    and "perform a w = Some w'"
  shows "runId (batches w ! r) \<noteq> runIdRef (state w) \<and> state w' = state w"
proof -
  from execute_ok[OF _ _ assms(1)] mounted_ok have e: "epochs_ok w" and c: "pools_clean w"
    by blast+
  from e assms(2) have stale: "runId (batches w ! r) \<noteq> runIdRef (state w)"
    by (auto simp: epochs_ok_def)
  from c assms(2) have "clean (pool (batches w ! r))" by (auto simp: pools_clean_def)
  then have "joined (pool (batches w ! r)) \<noteq> Rejected" by (rule clean_not_rejected)
  with perform_stale[OF assms(3,4)] stale show ?thesis by auto
qed

theorem epoch_supersession_witness:
  "execute supersede mounted \<noteq> None
   \<and> Suc 0 < length (batches (the (execute supersede mounted)))
   \<and> batch_of late_answer = Some 0
   \<and> perform late_answer (the (execute supersede mounted)) \<noteq> None
   \<and> state (the (perform late_answer (the (execute supersede mounted))))
       = state (the (execute supersede mounted))"
proof -
  have e1: "execute supersede mounted \<noteq> None" by code_simp
  have e2: "perform late_answer (the (execute supersede mounted)) \<noteq> None" by code_simp
  have e3: "Suc 0 < length (batches (the (execute supersede mounted)))" by code_simp
  from e1 obtain w where w: "execute supersede mounted = Some w" by auto
  from e2 w obtain w' where w': "perform late_answer w = Some w'" by auto
  have b: "batch_of late_answer = Some 0" by (simp add: late_answer_def)
  from e3 w have l: "Suc 0 < length (batches w)" by simp
  from epoch_supersession[OF w l b w'] w w' e1 e2 e3 b show ?thesis by simp
qed

text \<open>
  Without the second upload the same answer is applied: the first view is done and holds
  the image.
\<close>

lemma answer_in_time_is_bound:
  "map status (results (state (the (perform late_answer (the (execute uninterrupted mounted))))))
     = [Done, Queued, Queued, Queued, Queued, Queued, Queued, Queued]
   \<and> map image (results (state (the (perform late_answer (the (execute uninterrupted mounted))))))
     = [Some ''data:image/png;base64,AAAA'', None, None, None, None, None, None, None]"
  by code_simp

end
